theory Spec2Isabelle
  imports Complex_Main "HOL-Library.Word"
begin

section \<open>JavaScript strings\<close>

text \<open>
  A JavaScript string is a sequence of UTF-16 code units; \<open>length\<close> counts code units,
  as \<^verbatim>\<open>String.prototype.length\<close> does. \<open>js\<close> turns an ASCII literal into such a string.
\<close>

type_synonym jschar = "16 word"
type_synonym jsstring = "jschar list"

definition js :: "string \<Rightarrow> jsstring" where
  "js s = map (\<lambda>c. of_nat (of_char c)) s"

text \<open>
  The code units matched by the regular expression class \<^verbatim>\<open>\s\<close>; \<^verbatim>\<open>trim()\<close> strips the
  same set (WhiteSpace and LineTerminator of ECMAScript).
\<close>

definition isWhiteSpace :: "jschar \<Rightarrow> bool" where
  "isWhiteSpace c \<longleftrightarrow>
     c \<in> set [0x9, 0xA, 0xB, 0xC, 0xD, 0x20, 0xA0, 0x1680, 0x2028, 0x2029, 0x202F,
               0x205F, 0x3000, 0xFEFF]
     \<or> (0x2000 \<le> c \<and> c \<le> 0x200A)"

abbreviation SP :: jschar where
  "SP \<equiv> 0x20"

text \<open>\<^verbatim>\<open>text.replace(/\s+/g, ' ')\<close>: every maximal run of white space becomes one space.\<close>

function collapseWhiteSpace :: "jsstring \<Rightarrow> jsstring" where
  "collapseWhiteSpace [] = []"
| "collapseWhiteSpace (c # cs) =
     (if isWhiteSpace c then SP # collapseWhiteSpace (dropWhile isWhiteSpace cs)
      else c # collapseWhiteSpace cs)"
  by pat_completeness auto
termination
  by (relation "measure length") (auto simp: less_Suc_eq_le length_dropWhile_le)

text \<open>\<^verbatim>\<open>String.prototype.trim\<close>.\<close>

definition trim :: "jsstring \<Rightarrow> jsstring" where
  "trim s = rev (dropWhile isWhiteSpace (rev (dropWhile isWhiteSpace s)))"

text \<open>\<^verbatim>\<open>normalizeText\<close> of shared/utils: \<^verbatim>\<open>text.replace(/\s+/g, ' ').trim()\<close>.\<close>

definition normalizeText :: "jsstring \<Rightarrow> jsstring" where
  "normalizeText text = trim (collapseWhiteSpace text)"

text \<open>\<^verbatim>\<open>Array.prototype.join\<close> with a separator, on an array of strings.\<close>

fun join :: "jsstring \<Rightarrow> jsstring list \<Rightarrow> jsstring" where
  "join sep [] = []"
| "join sep [x] = x"
| "join sep (x # y # ys) = x @ sep @ join sep (y # ys)"

text \<open>\<^verbatim>\<open>s.split(' ')\<close>: the pieces between single spaces; the empty string gives one empty piece.\<close>

fun splitSpace :: "jsstring \<Rightarrow> jsstring list" where
  "splitSpace [] = [[]]"
| "splitSpace (c # cs) =
     (if c = SP then [] # splitSpace cs
      else (case splitSpace cs of w # ws \<Rightarrow> (c # w) # ws | [] \<Rightarrow> [[c]]))"

text \<open>\<^verbatim>\<open>xs.slice(i, j)\<close> for \<open>0 \<le> i\<close> and \<open>0 \<le> j\<close>.\<close>

definition slice :: "'a list \<Rightarrow> nat \<Rightarrow> nat \<Rightarrow> 'a list" where
  "slice xs i j = take (j - i) (drop i xs)"

text \<open>
  \<^verbatim>\<open>s.indexOf(t, from)\<close>: the least index \<open>k \<ge> from\<close> at which \<open>t\<close> occurs in \<open>s\<close>, or
  \<open>None\<close> for \<open>-1\<close>. The start position is clamped to the length of \<open>s\<close>.
\<close>

fun indexOfAux :: "jsstring \<Rightarrow> jsstring \<Rightarrow> nat \<Rightarrow> nat option" where
  "indexOfAux t [] k = (if t = [] then Some k else None)"
| "indexOfAux t (c # cs) k =
     (if take (length t) (c # cs) = t then Some k else indexOfAux t cs (Suc k))"

definition indexOf :: "jsstring \<Rightarrow> jsstring \<Rightarrow> nat \<Rightarrow> nat option" where
  "indexOf s t from = indexOfAux t (drop (min from (length s)) s) (min from (length s))"

section \<open>The document as the text matcher reads it\<close>

text \<open>
  The matcher walks \<^verbatim>\<open>document.body\<close> with a \<^verbatim>\<open>TreeWalker\<close> showing text nodes only. What it
  reads of the tree is the sequence of all text nodes below the root in document order,
  each with the tag name of its parent element and its \<^verbatim>\<open>textContent\<close>. A text node is
  referred to by its index in that sequence.
\<close>

record textNode =
  parentTagName :: "string option"
  textContent :: jsstring

type_synonym document = "textNode list"

definition toLowerCaseAscii :: "string \<Rightarrow> string" where
  "toLowerCaseAscii s =
     map (\<lambda>c. if 65 \<le> (of_char c :: nat) \<and> (of_char c :: nat) \<le> 90
              then char_of (of_char c + 32 :: nat) else c) s"

text \<open>The \<^verbatim>\<open>acceptNode\<close> filter of \<^verbatim>\<open>buildTextNodeMap\<close>; \<open>True\<close> is \<^verbatim>\<open>FILTER_ACCEPT\<close>.\<close>

definition acceptNode :: "textNode \<Rightarrow> bool" where
  "acceptNode n =
     (let text = trim (textContent n) in
      if length text = 0 then False
      else (case parentTagName n of
              Some tagName \<Rightarrow>
                if toLowerCaseAscii tagName \<in> set [''script'', ''style'', ''noscript'']
                then False else True
            | None \<Rightarrow> True))"

record textPositionMapEntry =
  node :: nat
  startOffset :: nat
  endOffset :: nat
  normalizedText :: jsstring

text \<open>
  The \<^verbatim>\<open>while (node = walker.nextNode())\<close> loop of \<^verbatim>\<open>buildTextNodeMap\<close> over the nodes
  the walker still has to deliver, with the running \<^verbatim>\<open>globalOffset\<close> and the map built
  so far.
\<close>

fun buildLoop :: "(nat \<times> textNode) list \<Rightarrow> nat \<Rightarrow> textPositionMapEntry list \<Rightarrow> textPositionMapEntry list" where
  "buildLoop [] globalOffset acc = acc"
| "buildLoop ((i, n) # rest) globalOffset acc =
     (let originalText = textContent n;
          normalized = normalizeText originalText
      in if length normalized > 0 then
           (let acc' = acc @ [\<lparr>node = i, startOffset = globalOffset,
                               endOffset = globalOffset + length normalized,
                               normalizedText = normalized\<rparr>];
                g1 = globalOffset + length normalized;
                g2 = (if g1 > 0 then g1 + 1 else g1)
            in buildLoop rest g2 acc')
         else buildLoop rest globalOffset acc)"

definition walkerNodes :: "document \<Rightarrow> (nat \<times> textNode) list" where
  "walkerNodes doc = filter (\<lambda>(i, n). acceptNode n) (zip [0..<length doc] doc)"

record textMatcher =
  rootTextNodes :: document
  textNodes :: "nat list"
  textPositionMap :: "textPositionMapEntry list"
  fullNormalizedText :: jsstring

text \<open>The constructor: \<^verbatim>\<open>buildTextNodeMap\<close> on the root's text nodes.\<close>

definition buildTextNodeMap :: "document \<Rightarrow> textMatcher" where
  "buildTextNodeMap doc =
     (let pm = buildLoop (walkerNodes doc) 0 []
      in \<lparr>rootTextNodes = doc,
          textNodes = map node pm,
          textPositionMap = pm,
          fullNormalizedText = join [SP] (map normalizedText pm)\<rparr>)"

section \<open>Ranges over text nodes\<close>

text \<open>
  A \<^verbatim>\<open>Range\<close> whose two boundary points lie in text nodes: the container of each
  boundary point (an index into the document's text nodes) and the offset into its data.
\<close>

datatype domException = IndexSizeError | InvalidStateError | HierarchyRequestError | NotFoundError

record domRangeObj =
  startContainer :: nat
  rangeStartOffset :: nat
  endContainer :: nat
  rangeEndOffset :: nat

text \<open>
  \<^verbatim>\<open>range.setStart(node, offset)\<close> on the range just made by \<^verbatim>\<open>document.createRange()\<close>,
  whose boundary points are both \<open>(document, 0)\<close>: an offset beyond the node's length
  throws; otherwise the new start lies after the old end, so the end moves with it.
\<close>

definition setStart :: "document \<Rightarrow> nat \<Rightarrow> nat \<Rightarrow> domException + domRangeObj" where
  "setStart doc n off =
     (if off > length (textContent (doc ! n)) then Inl IndexSizeError
      else Inr \<lparr>startContainer = n, rangeStartOffset = off,
                endContainer = n, rangeEndOffset = off\<rparr>)"

text \<open>
  \<^verbatim>\<open>range.setEnd(node, offset)\<close>: an offset beyond the node's length throws; a new end
  before the start collapses the range onto the new end.
\<close>

definition setEnd :: "document \<Rightarrow> domRangeObj \<Rightarrow> nat \<Rightarrow> nat \<Rightarrow> domException + domRangeObj" where
  "setEnd doc r n off =
     (if off > length (textContent (doc ! n)) then Inl IndexSizeError
      else if n < startContainer r \<or> (n = startContainer r \<and> off < rangeStartOffset r)
      then Inr \<lparr>startContainer = n, rangeStartOffset = off,
                endContainer = n, rangeEndOffset = off\<rparr>
      else Inr (r\<lparr>endContainer := n, rangeEndOffset := off\<rparr>))"

text \<open>
  \<^verbatim>\<open>range.toString()\<close>: the data of the text nodes inside the range, in document order;
  the first and last node contribute only the part inside the boundary points.
\<close>

definition rangeToString :: "document \<Rightarrow> domRangeObj \<Rightarrow> jsstring" where
  "rangeToString doc r =
     (if startContainer r = endContainer r
      then slice (textContent (doc ! startContainer r)) (rangeStartOffset r) (rangeEndOffset r)
      else drop (rangeStartOffset r) (textContent (doc ! startContainer r))
           @ concat (map (\<lambda>k. textContent (doc ! k)) [Suc (startContainer r)..<endContainer r])
           @ take (rangeEndOffset r) (textContent (doc ! endContainer r)))"

section \<open>Locating text: \<^verbatim>\<open>TextMatcher\<close>\<close>

record nodeLocation =
  locNode :: nat
  locOffset :: nat

text \<open>
  The \<^verbatim>\<open>for\<close> loop of \<^verbatim>\<open>denormalizeOffset\<close> from index \<open>i\<close> on, with the values of
  \<^verbatim>\<open>originalPos\<close> and \<^verbatim>\<open>normalizedPos\<close> on entry.
\<close>

function denormalizeLoop :: "jsstring \<Rightarrow> nat \<Rightarrow> nat \<Rightarrow> nat \<Rightarrow> nat \<Rightarrow> nat" where
  "denormalizeLoop originalText normalizedOffset i originalPos normalizedPos =
     (if i < length originalText \<and> normalizedPos < normalizedOffset then
        (let char = originalText ! i;
             normalizedPos' =
               (if isWhiteSpace char then
                  (if i = 0 \<or> \<not> isWhiteSpace (originalText ! (i - 1))
                   then normalizedPos + 1 else normalizedPos)
                else normalizedPos + 1)
         in denormalizeLoop originalText normalizedOffset (i + 1) (i + 1) normalizedPos')
      else originalPos)"
  by pat_completeness auto
termination
  by (relation "measure (\<lambda>(t, n, i, op, np). length t - i)") auto

declare denormalizeLoop.simps [simp del]

definition denormalizeOffset :: "jsstring \<Rightarrow> nat \<Rightarrow> nat" where
  "denormalizeOffset originalText normalizedOffset =
     min (denormalizeLoop originalText normalizedOffset 0 0 0) (length originalText)"

text \<open>
  The loop of \<^verbatim>\<open>findNodeAtPosition\<close> over the remaining map items, with the running
  \<^verbatim>\<open>currentPos\<close>. A position is a JavaScript number and may be negative.
\<close>

fun findNodeLoop :: "document \<Rightarrow> textPositionMapEntry list \<Rightarrow> int \<Rightarrow> nat \<Rightarrow> nodeLocation option" where
  "findNodeLoop doc [] position currentPos = None"
| "findNodeLoop doc (mapItem # rest) position currentPos =
     (let nodeLength = length (normalizedText mapItem) in
      if position \<ge> int currentPos \<and> position < int (currentPos + nodeLength) then
        (let relativeOffset = nat (position - int currentPos);
             originalOffset =
               denormalizeOffset (textContent (doc ! node mapItem)) relativeOffset
         in Some \<lparr>locNode = node mapItem,
                   locOffset = min originalOffset (length (textContent (doc ! node mapItem)))\<rparr>)
      else findNodeLoop doc rest position (currentPos + nodeLength + 1))"

definition findNodeAtPosition :: "textMatcher \<Rightarrow> int \<Rightarrow> nodeLocation option" where
  "findNodeAtPosition m position =
     findNodeLoop (rootTextNodes m) (textPositionMap m) position 0"

record domRange =
  rangeObj :: domRangeObj
  originalText :: jsstring
  rangeNormalizedText :: jsstring

text \<open>
  \<^verbatim>\<open>createDOMRange\<close>: \<open>None\<close> is \<^verbatim>\<open>null\<close>, returned when a position has no node or when
  \<^verbatim>\<open>setStart\<close> or \<^verbatim>\<open>setEnd\<close> throws (the \<^verbatim>\<open>catch\<close> branch).
\<close>

definition createDOMRange :: "textMatcher \<Rightarrow> int \<Rightarrow> int \<Rightarrow> domRange option" where
  "createDOMRange m startPos endPos =
     (case (findNodeAtPosition m startPos, findNodeAtPosition m (endPos - 1)) of
        (Some startLocation, Some endLocation) \<Rightarrow>
          (case setStart (rootTextNodes m) (locNode startLocation) (locOffset startLocation) of
             Inl e \<Rightarrow> None
           | Inr r0 \<Rightarrow>
               (case setEnd (rootTextNodes m) r0 (locNode endLocation)
                       (locOffset endLocation + 1) of
                  Inl e \<Rightarrow> None
                | Inr r \<Rightarrow>
                    Some \<lparr>rangeObj = r,
                          originalText = rangeToString (rootTextNodes m) r,
                          rangeNormalizedText =
                            normalizeText (rangeToString (rootTextNodes m) r)\<rparr>))
      | _ \<Rightarrow> None)"

text \<open>
  The \<^verbatim>\<open>while\<close> loop of \<^verbatim>\<open>findTextRanges\<close>. With an empty target \<^verbatim>\<open>indexOf\<close> succeeds
  at every call and the loop never ends, so the loop is a partial function: \<open>None\<close> is
  a run that does not return.
\<close>

partial_function (option) searchLoop ::
  "textMatcher \<Rightarrow> jsstring \<Rightarrow> nat \<Rightarrow> domRange list \<Rightarrow> domRange list option" where
  "searchLoop m normalizedTarget searchStart ranges =
     (case indexOf (fullNormalizedText m) normalizedTarget searchStart of
        None \<Rightarrow> Some ranges
      | Some matchIndex \<Rightarrow>
          searchLoop m normalizedTarget (matchIndex + 1)
            (case createDOMRange m (int matchIndex)
                    (int matchIndex + int (length normalizedTarget)) of
               Some r \<Rightarrow> ranges @ [r]
             | None \<Rightarrow> ranges))"

declare searchLoop.simps [code]

definition findTextRanges :: "textMatcher \<Rightarrow> jsstring \<Rightarrow> domRange list option" where
  "findTextRanges m targetText =
     (let normalizedTarget = normalizeText targetText in
      if length normalizedTarget = 0 then Some []
      else searchLoop m normalizedTarget 0 [])"

section \<open>Fuzzy matching\<close>

text \<open>
  \<^verbatim>\<open>calculateSimilarity\<close>: the sizes of the intersection and of the union of the two word
  sets, divided. The case mapping \<^verbatim>\<open>toLowerCase\<close> of the platform is a parameter. A set is
  a duplicate-free list; the quotient of the two sizes is an exact rational, which compares
  with a threshold of a few decimal digits as the double-precision quotient does for every
  size below \<open>2 ^ 32\<close>.
\<close>

definition calculateSimilarity :: "(jsstring \<Rightarrow> jsstring) \<Rightarrow> jsstring \<Rightarrow> jsstring \<Rightarrow> rat" where
  "calculateSimilarity toLowerCase text1 text2 =
     (let words1 = remdups (splitSpace (toLowerCase text1));
          words2 = remdups (splitSpace (toLowerCase text2));
          intersection = remdups (filter (\<lambda>word. word \<in> set words2) words1);
          union = remdups (words1 @ words2)
      in of_nat (length intersection) / of_nat (length union))"

text \<open>
  The \<^verbatim>\<open>for\<close> loop of \<^verbatim>\<open>findFuzzyTextRanges\<close> from index \<open>i\<close> on. The loop condition
  \<^verbatim>\<open>i <= fullTextWords.length - windowSize\<close> is over the integers.
\<close>

function fuzzyLoop ::
  "(jsstring \<Rightarrow> jsstring) \<Rightarrow> textMatcher \<Rightarrow> jsstring \<Rightarrow> rat \<Rightarrow> nat \<Rightarrow> jsstring list \<Rightarrow> nat
     \<Rightarrow> domRange list \<Rightarrow> domRange list" where
  "fuzzyLoop toLowerCase m normalizedTarget threshold windowSize fullTextWords i ranges =
     (if int i \<le> int (length fullTextWords) - int windowSize then
        (let window = join [SP] (slice fullTextWords i (i + windowSize));
             similarity = calculateSimilarity toLowerCase normalizedTarget window;
             ranges' =
               (if similarity \<ge> threshold then
                  (let windowStart = length (join [SP] (slice fullTextWords 0 i));
                       windowEnd = windowStart + length window
                   in case createDOMRange m (int windowStart) (int windowEnd) of
                        Some r \<Rightarrow> ranges @ [r]
                      | None \<Rightarrow> ranges)
                else ranges)
         in fuzzyLoop toLowerCase m normalizedTarget threshold windowSize fullTextWords
              (i + 1) ranges')
      else ranges)"
  by pat_completeness auto
termination
  by (relation "measure (\<lambda>(lc, m, t, th, w, fw, i, rs). Suc (length fw) - i)") auto

declare fuzzyLoop.simps [simp del]

text \<open>
  \<^verbatim>\<open>findFuzzyTextRanges(targetText, threshold = 0.8)\<close>: \<open>None\<close> for the threshold is a call
  that leaves the argument out.
\<close>

definition findFuzzyTextRanges ::
  "(jsstring \<Rightarrow> jsstring) \<Rightarrow> textMatcher \<Rightarrow> jsstring \<Rightarrow> rat option \<Rightarrow> domRange list" where
  "findFuzzyTextRanges toLowerCase m targetText thresholdArg =
     (let threshold = (case thresholdArg of None \<Rightarrow> 8 / 10 | Some t \<Rightarrow> t);
          normalizedTarget = normalizeText targetText
      in if length normalizedTarget < 10 then []
         else (let words = splitSpace normalizedTarget
               in if length words < 3 then []
                  else (let windowSize = min (length words * 2) 20;
                            fullTextWords = splitSpace (fullNormalizedText m)
                        in fuzzyLoop toLowerCase m normalizedTarget threshold windowSize
                             fullTextWords 0 [])))"

section \<open>The document tree and the overlap guard\<close>

text \<open>
  The subtree of \<^verbatim>\<open>document.body\<close>: a text node with its data, or an element with its tag
  name, its \<^verbatim>\<open>class\<close> attribute and its children. A node is addressed by the path of child
  indices from the root.
\<close>

datatype domNode =
  TextNode jsstring
| ElementNode string string "domNode list"

text \<open>The text nodes below a node in document order, as the tree walker delivers them.\<close>

fun textNodesUnder :: "string \<Rightarrow> domNode \<Rightarrow> textNode list" where
  "textNodesUnder parent (TextNode d) = [\<lparr>parentTagName = Some parent, textContent = d\<rparr>]"
| "textNodesUnder parent (ElementNode tagName cls children) =
     concat (map (textNodesUnder tagName) children)"

definition textNodesOf :: "domNode \<Rightarrow> document" where
  "textNodesOf body =
     (case body of
        ElementNode tagName cls children \<Rightarrow> concat (map (textNodesUnder tagName) children)
      | TextNode d \<Rightarrow> [])"

text \<open>The paths of those text nodes, in the same order.\<close>

function textPathsUnder :: "nat list \<Rightarrow> domNode \<Rightarrow> nat list list" where
  "textPathsUnder path (TextNode d) = [path]"
| "textPathsUnder path (ElementNode tagName cls children) =
     concat (map (\<lambda>(i, c). textPathsUnder (path @ [i]) c) (zip [0..<length children] children))"
  by pat_completeness auto
termination
  by (relation "measure (\<lambda>(p, n). size n)")
     (auto dest!: set_zip_rightD simp: less_Suc_eq_le intro: size_list_estimation')

definition textPathsOf :: "domNode \<Rightarrow> nat list list" where
  "textPathsOf body =
     (case body of
        ElementNode tagName cls children \<Rightarrow> textPathsUnder [] body
      | TextNode d \<Rightarrow> [])"

fun nodeAt :: "domNode \<Rightarrow> nat list \<Rightarrow> domNode option" where
  "nodeAt n [] = Some n"
| "nodeAt (TextNode d) (i # path) = None"
| "nodeAt (ElementNode tagName cls children) (i # path) =
     (if i < length children then nodeAt (children ! i) path else None)"

text \<open>A range as the tree has it: the two boundary points by the paths of their containers.\<close>

record treeRange =
  startPath :: "nat list"
  startOff :: nat
  endPath :: "nat list"
  endOff :: nat

definition treeRangeOf :: "domNode \<Rightarrow> domRangeObj \<Rightarrow> treeRange" where
  "treeRangeOf body r =
     \<lparr>startPath = textPathsOf body ! startContainer r, startOff = rangeStartOffset r,
      endPath = textPathsOf body ! endContainer r, endOff = rangeEndOffset r\<rparr>"

text \<open>\<^verbatim>\<open>range.collapsed\<close> and \<^verbatim>\<open>range.commonAncestorContainer\<close>.\<close>

definition collapsed :: "treeRange \<Rightarrow> bool" where
  "collapsed r \<longleftrightarrow> startPath r = endPath r \<and> startOff r = endOff r"

fun commonPrefix :: "nat list \<Rightarrow> nat list \<Rightarrow> nat list" where
  "commonPrefix (x # xs) (y # ys) = (if x = y then x # commonPrefix xs ys else [])"
| "commonPrefix xs ys = []"

definition commonAncestorContainer :: "treeRange \<Rightarrow> nat list" where
  "commonAncestorContainer r = commonPrefix (startPath r) (endPath r)"

text \<open>The attribute selector \<^verbatim>\<open>[class*="..."]\<close>: the class attribute contains the string.\<close>

fun containsString :: "string \<Rightarrow> string \<Rightarrow> bool" where
  "containsString [] t = (t = [])"
| "containsString (c # cs) t = (take (length t) (c # cs) = t \<or> containsString cs t)"

definition HIGHLIGHT_CLASS_PREFIX :: string where
  "HIGHLIGHT_CLASS_PREFIX = ''manipulation-highlight''"

definition matchesHighlight :: "domNode \<Rightarrow> bool" where
  "matchesHighlight n =
     (case n of
        ElementNode tagName cls children \<Rightarrow> containsString cls HIGHLIGHT_CLASS_PREFIX
      | TextNode d \<Rightarrow> False)"

text \<open>\<^verbatim>\<open>element.querySelector(sel) !== null\<close>: some proper descendant matches.\<close>

fun hasMatchingDescendant :: "domNode \<Rightarrow> bool" where
  "hasMatchingDescendant (TextNode d) = False"
| "hasMatchingDescendant (ElementNode tagName cls children) =
     (\<exists>c \<in> set children. matchesHighlight c \<or> hasMatchingDescendant c)"

text \<open>
  \<^verbatim>\<open>element.closest(sel) !== null\<close> for the element at a path: the element itself or one of
  its ancestors matches. The root of the tree is \<^verbatim>\<open>document.body\<close>; the \<^verbatim>\<open>html\<close> element above
  it is taken to carry no highlight class.
\<close>

definition closestMatches :: "domNode \<Rightarrow> nat list \<Rightarrow> bool" where
  "closestMatches body path =
     (\<exists>k \<in> set [0..<Suc (length path)].
        (case nodeAt body (take k path) of Some n \<Rightarrow> matchesHighlight n | None \<Rightarrow> False))"

text \<open>\<^verbatim>\<open>isRangeHighlighted\<close>, the overlap guard of \<^verbatim>\<open>createHighlightElement\<close>.\<close>

definition isRangeHighlighted :: "domNode \<Rightarrow> treeRange \<Rightarrow> bool" where
  "isRangeHighlighted body r =
     (let container = commonAncestorContainer r in
      case nodeAt body container of
        Some (ElementNode tagName cls children) \<Rightarrow>
          hasMatchingDescendant (ElementNode tagName cls children)
      | Some (TextNode d) \<Rightarrow>
          (if container \<noteq> [] then closestMatches body (butlast container) else False)
      | None \<Rightarrow> False)"

section \<open>The highlighter\<close>

datatype manipulationType =
  fear_mongering | outrage_bait | emotional_appeal
| strawman | ad_hominem | false_dichotomy | slippery_slope
| cherry_picking | misleading_statistics | false_correlation | quote_mining
| bandwagon | authority_appeal | loaded_language | repetition
| headline_mismatch | buried_lede | false_balance

fun typeLiteral :: "manipulationType \<Rightarrow> string" where
  "typeLiteral fear_mongering = ''fear_mongering''"
| "typeLiteral outrage_bait = ''outrage_bait''"
| "typeLiteral emotional_appeal = ''emotional_appeal''"
| "typeLiteral strawman = ''strawman''"
| "typeLiteral ad_hominem = ''ad_hominem''"
| "typeLiteral false_dichotomy = ''false_dichotomy''"
| "typeLiteral slippery_slope = ''slippery_slope''"
| "typeLiteral cherry_picking = ''cherry_picking''"
| "typeLiteral misleading_statistics = ''misleading_statistics''"
| "typeLiteral false_correlation = ''false_correlation''"
| "typeLiteral quote_mining = ''quote_mining''"
| "typeLiteral bandwagon = ''bandwagon''"
| "typeLiteral authority_appeal = ''authority_appeal''"
| "typeLiteral loaded_language = ''loaded_language''"
| "typeLiteral repetition = ''repetition''"
| "typeLiteral headline_mismatch = ''headline_mismatch''"
| "typeLiteral buried_lede = ''buried_lede''"
| "typeLiteral false_balance = ''false_balance''"

record manipulationBlock =
  original_text :: jsstring
  manipulation_type :: manipulationType
  manipulation_description :: jsstring
  confidence :: rat

datatype highlightMode = FullColor | LowContrast

text \<open>
  The identifier \<^verbatim>\<open>highlight-${index}-${rangeIndex}-${Date.now()}\<close> by its three numbers.
\<close>

type_synonym highlightId = "nat \<times> nat \<times> nat"

text \<open>What the code sets on a marker \<^verbatim>\<open>span\<close> before it enters the tree.\<close>

record spanAttributes =
  spanId :: highlightId
  className :: string
  dataManipulationType :: string
  dataManipulationDescription :: jsstring
  dataConfidence :: rat
  clickListener :: bool

record 'n highlightInfo =
  element :: 'n
  manipulation :: manipulationBlock
  highlightRange :: domRangeObj
  highlightId :: highlightId

text \<open>
  The browser, as far as the highlighter calls it. The state \<open>'d\<close> is the document with
  its live \<^verbatim>\<open>Range\<close> objects and the clock; \<open>'n\<close> are node handles; \<open>'t\<close> is the state of the
  tooltip manager. A range made by the matcher names its \<^verbatim>\<open>Range\<close> object. Of the state the
  highlighter reads the tree below \<^verbatim>\<open>document.body\<close> and the current boundary points of a
  range. A call that mutates the tree returns the new state, together with the exception
  if it throws.
\<close>

record ('d, 'n, 't) browser =
  bodyTree :: "'d \<Rightarrow> domNode"
  rangeBoundary :: "'d \<Rightarrow> domRangeObj \<Rightarrow> treeRange"
  dateNow :: "'d \<Rightarrow> nat"
  toLowerCase :: "jsstring \<Rightarrow> jsstring"
  createSpan :: "'d \<Rightarrow> spanAttributes \<Rightarrow> 'n \<times> 'd"
  surroundContents :: "'d \<Rightarrow> domRangeObj \<Rightarrow> 'n \<Rightarrow> (domException + unit) \<times> 'd"
  extractContents :: "'d \<Rightarrow> domRangeObj \<Rightarrow> (domException + 'n) \<times> 'd"
  appendChild :: "'d \<Rightarrow> 'n \<Rightarrow> 'n \<Rightarrow> (domException + unit) \<times> 'd"
  insertNode :: "'d \<Rightarrow> domRangeObj \<Rightarrow> 'n \<Rightarrow> (domException + unit) \<times> 'd"
  parentNode :: "'d \<Rightarrow> 'n \<Rightarrow> 'n option"
  firstChild :: "'d \<Rightarrow> 'n \<Rightarrow> 'n option"
  insertBefore :: "'d \<Rightarrow> 'n \<Rightarrow> 'n \<Rightarrow> 'n \<Rightarrow> (domException + unit) \<times> 'd"
  removeChild :: "'d \<Rightarrow> 'n \<Rightarrow> 'n \<Rightarrow> (domException + unit) \<times> 'd"
  isElementNode :: "'d \<Rightarrow> 'n \<Rightarrow> bool"
  normalizeNode :: "'d \<Rightarrow> 'n \<Rightarrow> 'd"
  hideTooltip :: "'t \<Rightarrow> 't"

record ('d, 'n, 't) textHighlighter =
  domState :: 'd
  highlightedElements :: "(highlightId \<times> 'n highlightInfo) list"
  tooltipManager :: 't
  currentMode :: highlightMode

text \<open>\<^verbatim>\<open>Map.prototype.set\<close> on a map kept in insertion order.\<close>

fun mapSet :: "'k \<Rightarrow> 'v \<Rightarrow> ('k \<times> 'v) list \<Rightarrow> ('k \<times> 'v) list" where
  "mapSet k v [] = [(k, v)]"
| "mapSet k v ((k', v') # kvs) = (if k' = k then (k, v) # kvs else (k', v') # mapSet k v kvs)"

text \<open>
  Sequencing of calls that may throw, and \<^verbatim>\<open>try { ... } catch (error) { ... }\<close>: the handler
  runs in the state the throwing call left.
\<close>

definition thenDo ::
  "(domException + 'a) \<times> 'd \<Rightarrow> ('a \<Rightarrow> 'd \<Rightarrow> (domException + 'b) \<times> 'd) \<Rightarrow> (domException + 'b) \<times> 'd" where
  "thenDo m f = (case m of (Inl e, d) \<Rightarrow> (Inl e, d) | (Inr v, d) \<Rightarrow> f v d)"

definition tryCatch ::
  "(domException + 'a) \<times> 'd \<Rightarrow> (domException \<Rightarrow> 'd \<Rightarrow> (domException + 'a) \<times> 'd) \<Rightarrow> (domException + 'a) \<times> 'd" where
  "tryCatch body handler = (case body of (Inl e, d) \<Rightarrow> handler e d | (Inr v, d) \<Rightarrow> (Inr v, d))"

definition getHighlightClass :: "highlightMode \<Rightarrow> manipulationType \<Rightarrow> string" where
  "getHighlightClass mode manipulationType =
     (let baseClass = HIGHLIGHT_CLASS_PREFIX @ ''-'' @ typeLiteral manipulationType;
          modeClass = (if mode = LowContrast then ''low-contrast'' else ''full-color'')
      in baseClass @ '' '' @ modeClass @ '' manipulation-highlight-base'')"

definition spanFor :: "highlightMode \<Rightarrow> manipulationBlock \<Rightarrow> highlightId \<Rightarrow> bool \<Rightarrow> spanAttributes" where
  "spanFor mode m hid click =
     \<lparr>spanId = hid,
      className = getHighlightClass mode (manipulation_type m),
      dataManipulationType = typeLiteral (manipulation_type m),
      dataManipulationDescription = manipulation_description m,
      dataConfidence = confidence m,
      clickListener = click\<rparr>"

text \<open>
  \<^verbatim>\<open>createHighlightElementAlternative\<close>: the body of its \<^verbatim>\<open>try\<close>, then the function with
  its \<^verbatim>\<open>catch\<close>, which returns \<^verbatim>\<open>null\<close>.
\<close>

definition alternativeBody ::
  "('d, 'n, 't) browser \<Rightarrow> highlightMode \<Rightarrow> 'd \<Rightarrow> domRangeObj \<Rightarrow> manipulationBlock \<Rightarrow> highlightId
     \<Rightarrow> (domException + 'n option) \<times> 'd" where
  "alternativeBody api mode d r m hid =
     thenDo (extractContents api d r) (\<lambda>contents d1.
       case createSpan api d1 (spanFor mode m hid False) of
         (spanEl, d2) \<Rightarrow>
           thenDo (appendChild api d2 spanEl contents) (\<lambda>u d3.
             thenDo (insertNode api d3 r spanEl) (\<lambda>u d4. (Inr (Some spanEl), d4))))"

definition createHighlightElementAlternative ::
  "('d, 'n, 't) browser \<Rightarrow> highlightMode \<Rightarrow> 'd \<Rightarrow> domRangeObj \<Rightarrow> manipulationBlock \<Rightarrow> highlightId
     \<Rightarrow> (domException + 'n option) \<times> 'd" where
  "createHighlightElementAlternative api mode d r m hid =
     tryCatch (alternativeBody api mode d r m hid) (\<lambda>error d'. (Inr None, d'))"

text \<open>
  \<^verbatim>\<open>createHighlightElement\<close>: the body of its \<^verbatim>\<open>try\<close> with the guard and the primary wrap,
  then the function with its \<^verbatim>\<open>catch\<close>, which tries the alternative.
\<close>

definition primaryBody ::
  "('d, 'n, 't) browser \<Rightarrow> highlightMode \<Rightarrow> 'd \<Rightarrow> domRangeObj \<Rightarrow> manipulationBlock \<Rightarrow> highlightId
     \<Rightarrow> (domException + 'n option) \<times> 'd" where
  "primaryBody api mode d r m hid =
     (if collapsed (rangeBoundary api d r)
         \<or> isRangeHighlighted (bodyTree api d) (rangeBoundary api d r)
      then (Inr None, d)
      else (case createSpan api d (spanFor mode m hid True) of
              (spanEl, d1) \<Rightarrow>
                thenDo (surroundContents api d1 r spanEl) (\<lambda>u d2. (Inr (Some spanEl), d2))))"

definition createHighlightElement ::
  "('d, 'n, 't) browser \<Rightarrow> highlightMode \<Rightarrow> 'd \<Rightarrow> domRangeObj \<Rightarrow> manipulationBlock \<Rightarrow> highlightId
     \<Rightarrow> (domException + 'n option) \<times> 'd" where
  "createHighlightElement api mode d r m hid =
     tryCatch (primaryBody api mode d r m hid)
       (\<lambda>error d'. createHighlightElementAlternative api mode d' r m hid)"

text \<open>
  The first lines of \<^verbatim>\<open>highlightManipulation\<close>: a fresh matcher on \<^verbatim>\<open>document.body\<close>, the
  exact search, and the fuzzy search with threshold 0.7 when the exact one gave no range.
\<close>

definition locateRanges ::
  "('d, 'n, 't) browser \<Rightarrow> 'd \<Rightarrow> jsstring \<Rightarrow> domRange list option" where
  "locateRanges api d target =
     (let textMatcher = buildTextNodeMap (textNodesOf (bodyTree api d)) in
      case findTextRanges textMatcher target of
        None \<Rightarrow> None
      | Some ranges \<Rightarrow>
          Some (if length ranges = 0
                then findFuzzyTextRanges (toLowerCase api) textMatcher target (Some (7 / 10))
                else ranges))"

text \<open>The callback of \<^verbatim>\<open>ranges.forEach\<close> in \<^verbatim>\<open>highlightManipulation\<close>, and the loop.\<close>

definition forEachRangeCallback ::
  "('d, 'n, 't) browser \<Rightarrow> manipulationBlock \<Rightarrow> nat \<Rightarrow> domRange \<times> nat
     \<Rightarrow> ('d, 'n, 't) textHighlighter \<Rightarrow> domException + ('d, 'n, 't) textHighlighter" where
  "forEachRangeCallback api m index x h =
     (let domRange = fst x; rangeIndex = snd x;
          hid = (index, rangeIndex, dateNow api (domState h))
      in case createHighlightElement api (currentMode h) (domState h) (rangeObj domRange) m hid of
           (Inl e, d') \<Rightarrow> Inl e
         | (Inr None, d') \<Rightarrow> Inr (h\<lparr>domState := d'\<rparr>)
         | (Inr (Some highlightElement), d') \<Rightarrow>
             Inr (h\<lparr>domState := d',
                    highlightedElements :=
                      mapSet hid \<lparr>element = highlightElement, manipulation = m,
                                  highlightRange = rangeObj domRange, highlightId = hid\<rparr>
                        (highlightedElements h)\<rparr>))"

fun forEachRange ::
  "('d, 'n, 't) browser \<Rightarrow> manipulationBlock \<Rightarrow> nat \<Rightarrow> (domRange \<times> nat) list
     \<Rightarrow> ('d, 'n, 't) textHighlighter \<Rightarrow> domException + ('d, 'n, 't) textHighlighter" where
  "forEachRange api m index [] h = Inr h"
| "forEachRange api m index (x # xs) h =
     (case forEachRangeCallback api m index x h of
        Inl e \<Rightarrow> Inl e
      | Inr h' \<Rightarrow> forEachRange api m index xs h')"

text \<open>\<^verbatim>\<open>highlightManipulation\<close>; \<open>None\<close> is a run that does not return.\<close>

definition highlightManipulation ::
  "('d, 'n, 't) browser \<Rightarrow> manipulationBlock \<Rightarrow> nat \<Rightarrow> ('d, 'n, 't) textHighlighter
     \<Rightarrow> (domException + ('d, 'n, 't) textHighlighter) option" where
  "highlightManipulation api m index h =
     (case locateRanges api (domState h) (original_text m) of
        None \<Rightarrow> None
      | Some ranges \<Rightarrow> Some (forEachRange api m index (zip ranges [0..<length ranges]) h))"

text \<open>
  \<^verbatim>\<open>clearHighlights\<close>. The loop \<^verbatim>\<open>while (element.firstChild) parent.insertBefore(...)\<close> runs
  as long as the browser reports a first child, so it is a partial function.
\<close>

partial_function (option) moveChildren ::
  "('d, 'n, 't) browser \<Rightarrow> 'n \<Rightarrow> 'n \<Rightarrow> 'd \<Rightarrow> ((domException + unit) \<times> 'd) option" where
  "moveChildren api parent el d =
     (case firstChild api d el of
        None \<Rightarrow> Some (Inr (), d)
      | Some child \<Rightarrow>
          (case insertBefore api d parent child el of
             (Inl e, d') \<Rightarrow> Some (Inl e, d')
           | (Inr u, d') \<Rightarrow> moveChildren api parent el d'))"

declare moveChildren.simps [code]

definition unwrapBody ::
  "('d, 'n, 't) browser \<Rightarrow> 'd \<Rightarrow> 'n highlightInfo \<Rightarrow> ((domException + unit) \<times> 'd) option" where
  "unwrapBody api d highlight =
     (case parentNode api d (element highlight) of
        None \<Rightarrow> Some (Inr (), d)
      | Some parent \<Rightarrow>
          (case moveChildren api parent (element highlight) d of
             None \<Rightarrow> None
           | Some moved \<Rightarrow>
               Some (thenDo moved (\<lambda>u d1.
                 thenDo (removeChild api d1 parent (element highlight)) (\<lambda>u d2.
                   (Inr (), if isElementNode api d2 parent then normalizeNode api d2 parent else d2))))))"

definition unwrapHighlight ::
  "('d, 'n, 't) browser \<Rightarrow> 'd \<Rightarrow> 'n highlightInfo \<Rightarrow> ((domException + unit) \<times> 'd) option" where
  "unwrapHighlight api d highlight =
     (case unwrapBody api d highlight of
        None \<Rightarrow> None
      | Some body \<Rightarrow> Some (tryCatch body (\<lambda>error d'. (Inr (), d'))))"

fun forEachHighlight ::
  "('d, 'n, 't) browser \<Rightarrow> 'n highlightInfo list \<Rightarrow> 'd \<Rightarrow> ((domException + unit) \<times> 'd) option" where
  "forEachHighlight api [] d = Some (Inr (), d)"
| "forEachHighlight api (highlight # rest) d =
     (case unwrapHighlight api d highlight of
        None \<Rightarrow> None
      | Some (Inl e, d') \<Rightarrow> Some (Inl e, d')
      | Some (Inr u, d') \<Rightarrow> forEachHighlight api rest d')"

definition clearHighlights ::
  "('d, 'n, 't) browser \<Rightarrow> ('d, 'n, 't) textHighlighter
     \<Rightarrow> (domException + ('d, 'n, 't) textHighlighter) option" where
  "clearHighlights api h =
     (case forEachHighlight api (map snd (highlightedElements h)) (domState h) of
        None \<Rightarrow> None
      | Some (Inl e, d') \<Rightarrow> Some (Inl e)
      | Some (Inr u, d') \<Rightarrow>
          Some (Inr (h\<lparr>domState := d', highlightedElements := [],
                       tooltipManager := hideTooltip api (tooltipManager h)\<rparr>)))"

text \<open>\<^verbatim>\<open>highlightManipulations\<close>, with the \<^verbatim>\<open>forEach\<close> over the spans and their indices.\<close>

fun forEachManipulation ::
  "('d, 'n, 't) browser \<Rightarrow> (manipulationBlock \<times> nat) list \<Rightarrow> ('d, 'n, 't) textHighlighter
     \<Rightarrow> (domException + ('d, 'n, 't) textHighlighter) option" where
  "forEachManipulation api [] h = Some (Inr h)"
| "forEachManipulation api ((m, index) # rest) h =
     (case highlightManipulation api m index h of
        None \<Rightarrow> None
      | Some (Inl e) \<Rightarrow> Some (Inl e)
      | Some (Inr h') \<Rightarrow> forEachManipulation api rest h')"

definition highlightManipulations ::
  "('d, 'n, 't) browser \<Rightarrow> ('d, 'n, 't) textHighlighter \<Rightarrow> manipulationBlock list \<Rightarrow> highlightMode
     \<Rightarrow> (domException + ('d, 'n, 't) textHighlighter) option" where
  "highlightManipulations api h manipulations mode =
     (case clearHighlights api (h\<lparr>currentMode := mode\<rparr>) of
        None \<Rightarrow> None
      | Some (Inl e) \<Rightarrow> Some (Inl e)
      | Some (Inr h') \<Rightarrow>
          forEachManipulation api (zip manipulations [0..<length manipulations]) h')"

section \<open>The tree the browser keeps\<close>

text \<open>
  The subtree of \<^verbatim>\<open>document.body\<close> with the identity of the elements the highlighter holds
  references to: an element made by \<^verbatim>\<open>document.createElement\<close> carries the number it got at
  its creation; every other element, and every clone the browser makes, carries none.
\<close>

datatype pageNode =
  PageText jsstring
| PageElement "nat option" string string "pageNode list"

fun plainTree :: "pageNode \<Rightarrow> domNode" where
  "plainTree (PageText d) = TextNode d"
| "plainTree (PageElement mark tagName cls children) =
     ElementNode tagName cls (map plainTree children)"

text \<open>\<^verbatim>\<open>node.textContent\<close>: the data of the text nodes below the node, in document order.\<close>

fun textContentOf :: "domNode \<Rightarrow> jsstring" where
  "textContentOf (TextNode d) = d"
| "textContentOf (ElementNode tagName cls children) = concat (map textContentOf children)"

fun pageText :: "pageNode \<Rightarrow> jsstring" where
  "pageText (PageText d) = d"
| "pageText (PageElement mark tagName cls children) = concat (map pageText children)"

primrec nodeAtPage :: "nat list \<Rightarrow> pageNode \<Rightarrow> pageNode option" where
  "nodeAtPage [] n = Some n"
| "nodeAtPage (i # path) n =
     (case n of
        PageText d \<Rightarrow> None
      | PageElement mark tagName cls children \<Rightarrow>
          if i < length children then nodeAtPage path (children ! i) else None)"

primrec modifyAt :: "nat list \<Rightarrow> (pageNode \<Rightarrow> pageNode) \<Rightarrow> pageNode \<Rightarrow> pageNode" where
  "modifyAt [] f n = f n"
| "modifyAt (i # path) f n =
     (case n of
        PageText d \<Rightarrow> n
      | PageElement mark tagName cls children \<Rightarrow>
          if i < length children
          then PageElement mark tagName cls (children[i := modifyAt path f (children ! i)])
          else n)"

definition onChildren :: "(pageNode list \<Rightarrow> pageNode list) \<Rightarrow> pageNode \<Rightarrow> pageNode" where
  "onChildren f n =
     (case n of
        PageText d \<Rightarrow> n
      | PageElement mark tagName cls children \<Rightarrow> PageElement mark tagName cls (f children))"

text \<open>
  The path of the element that carries the number \<open>k\<close>, the first in document order.
\<close>

fun findSpan :: "nat \<Rightarrow> pageNode \<Rightarrow> nat list option"
  and findSpanIn :: "nat \<Rightarrow> nat \<Rightarrow> pageNode list \<Rightarrow> nat list option" where
  "findSpan k (PageText d) = None"
| "findSpan k (PageElement mark tagName cls children) =
     (if mark = Some k then Some [] else findSpanIn k 0 children)"
| "findSpanIn k i [] = None"
| "findSpanIn k i (n # ns) =
     (case findSpan k n of
        Some path \<Rightarrow> Some (i # path)
      | None \<Rightarrow> findSpanIn k (Suc i) ns)"

subsection \<open>Taking the contents of a range out of the tree\<close>

text \<open>
  The part of a node after a boundary point that lies in it, as the extraction of a range
  takes it: the node is the first partially contained child of the range. A text node is
  cut at the offset. An element is cloned without its children; the clone receives what
  lies after the boundary point and the original keeps what lies before it. The result is
  the original and the clone; \<open>None\<close> when the boundary point is not a place of the node.
\<close>

primrec cutRight :: "nat list \<Rightarrow> nat \<Rightarrow> pageNode \<Rightarrow> (pageNode \<times> pageNode) option" where
  "cutRight [] off n =
     (case n of
        PageText d \<Rightarrow>
          if off \<le> length d then Some (PageText (take off d), PageText (drop off d)) else None
      | PageElement mark tagName cls children \<Rightarrow>
          if off \<le> length children
          then Some (PageElement mark tagName cls (take off children),
                     PageElement None tagName cls (drop off children))
          else None)"
| "cutRight (i # path) off n =
     (case n of
        PageText d \<Rightarrow> None
      | PageElement mark tagName cls children \<Rightarrow>
          if i < length children then
            (case cutRight path off (children ! i) of
               Some (original, clone) \<Rightarrow>
                 Some (PageElement mark tagName cls (take i children @ [original]),
                       PageElement None tagName cls (clone # drop (Suc i) children))
             | None \<Rightarrow> None)
          else None)"

text \<open>
  The part of a node before a boundary point that lies in it: the node is the last
  partially contained child of the range. The result is the clone, which receives what
  lies before the boundary point, and the original, which keeps the rest.
\<close>

primrec cutLeft :: "nat list \<Rightarrow> nat \<Rightarrow> pageNode \<Rightarrow> (pageNode \<times> pageNode) option" where
  "cutLeft [] off n =
     (case n of
        PageText d \<Rightarrow>
          if off \<le> length d then Some (PageText (take off d), PageText (drop off d)) else None
      | PageElement mark tagName cls children \<Rightarrow>
          if off \<le> length children
          then Some (PageElement None tagName cls (take off children),
                     PageElement mark tagName cls (drop off children))
          else None)"
| "cutLeft (j # path) off n =
     (case n of
        PageText d \<Rightarrow> None
      | PageElement mark tagName cls children \<Rightarrow>
          if j < length children then
            (case cutLeft path off (children ! j) of
               Some (clone, original) \<Rightarrow>
                 Some (PageElement None tagName cls (take j children @ [clone]),
                       PageElement mark tagName cls (original # drop (Suc j) children))
             | None \<Rightarrow> None)
          else None)"

text \<open>
  Extraction at the common ancestor of the two boundary points, an element; the paths are
  relative to it. A boundary point in the ancestor itself has the empty path and a child
  index as offset; otherwise the first step of the path names the partially contained
  child. The children wholly inside the range move to the fragment. The result is the
  ancestor after the extraction, the children of the fragment, and the child index at
  which the range has collapsed.
\<close>

definition extractHere ::
  "nat list \<Rightarrow> nat \<Rightarrow> nat list \<Rightarrow> nat \<Rightarrow> pageNode \<Rightarrow> (pageNode \<times> pageNode list \<times> nat) option" where
  "extractHere sp so ep eo n =
     (case n of
        PageText d \<Rightarrow> None
      | PageElement mark tagName cls children \<Rightarrow>
          (case (sp, ep) of
             ([], []) \<Rightarrow>
               if so \<le> eo \<and> eo \<le> length children
               then Some (PageElement mark tagName cls (take so children @ drop eo children),
                          slice children so eo, so)
               else None
           | ([], j # q) \<Rightarrow>
               if so \<le> j \<and> j < length children then
                 (case cutLeft q eo (children ! j) of
                    Some (clone, original) \<Rightarrow>
                      Some (PageElement mark tagName cls
                              (take so children @ original # drop (Suc j) children),
                            slice children so j @ [clone], so)
                  | None \<Rightarrow> None)
               else None
           | (i # p, []) \<Rightarrow>
               if i < eo \<and> eo \<le> length children then
                 (case cutRight p so (children ! i) of
                    Some (original, clone) \<Rightarrow>
                      Some (PageElement mark tagName cls
                              (take i children @ original # drop eo children),
                            clone # slice children (Suc i) eo, Suc i)
                  | None \<Rightarrow> None)
               else None
           | (i # p, j # q) \<Rightarrow>
               if i < j \<and> j < length children then
                 (case (cutRight p so (children ! i), cutLeft q eo (children ! j)) of
                    (Some (original1, clone1), Some (clone2, original2)) \<Rightarrow>
                      Some (PageElement mark tagName cls
                              (take i children @ original1 # original2 # drop (Suc j) children),
                            clone1 # slice children (Suc i) j @ [clone2], Suc i)
                  | _ \<Rightarrow> None)
               else None))"

text \<open>
  Extraction of the range from \<open>(sp, so)\<close> to \<open>(ep, eo)\<close> below a node: the descent to the
  common ancestor. When both boundary points lie in one text node, its data between the
  offsets is taken out. The result is the node after the extraction, the children of the
  fragment, and the boundary point at which the range has collapsed; \<open>None\<close> when the two
  points are not boundary points of the tree in document order.
\<close>

fun extractIn ::
  "nat list \<Rightarrow> nat \<Rightarrow> nat list \<Rightarrow> nat \<Rightarrow> pageNode
     \<Rightarrow> (pageNode \<times> pageNode list \<times> nat list \<times> nat) option" where
  "extractIn (i # p) so (j # q) eo n =
     (if i = j then
        (case n of
           PageText d \<Rightarrow> None
         | PageElement mark tagName cls children \<Rightarrow>
             if i < length children then
               (case children ! i of
                  PageText d \<Rightarrow>
                    if p = [] \<and> q = [] \<and> so \<le> eo \<and> eo \<le> length d
                    then Some (PageElement mark tagName cls
                                 (children[i := PageText (take so d @ drop eo d)]),
                               [PageText (slice d so eo)], [i], so)
                    else None
                | PageElement mark' tagName' cls' children' \<Rightarrow>
                    (case extractIn p so q eo (children ! i) of
                       Some (child', fragment, cp, co) \<Rightarrow>
                         Some (PageElement mark tagName cls (children[i := child']),
                               fragment, i # cp, co)
                     | None \<Rightarrow> None))
             else None)
      else (case extractHere (i # p) so (j # q) eo n of
              Some (n', fragment, co) \<Rightarrow> Some (n', fragment, [], co)
            | None \<Rightarrow> None))"
| "extractIn sp so ep eo n =
     (case extractHere sp so ep eo n of
        Some (n', fragment, co) \<Rightarrow> Some (n', fragment, [], co)
      | None \<Rightarrow> None)"

text \<open>
  Insertion of a node at a boundary point: in an element, before the child at the offset;
  in a text node, after the text node has been split at the offset.
\<close>

primrec insertAt :: "nat list \<Rightarrow> nat \<Rightarrow> pageNode \<Rightarrow> pageNode \<Rightarrow> pageNode option" where
  "insertAt [] off x n =
     (case n of
        PageText d \<Rightarrow> None
      | PageElement mark tagName cls children \<Rightarrow>
          if off \<le> length children
          then Some (PageElement mark tagName cls (take off children @ x # drop off children))
          else None)"
| "insertAt (i # path) off x n =
     (case n of
        PageText d \<Rightarrow> None
      | PageElement mark tagName cls children \<Rightarrow>
          if i < length children then
            (case children ! i of
               PageText d \<Rightarrow>
                 if path = [] \<and> off \<le> length d
                 then Some (PageElement mark tagName cls
                              (take i children
                               @ PageText (take off d) # x # PageText (drop off d)
                               # drop (Suc i) children))
                 else None
             | PageElement mark' tagName' cls' children' \<Rightarrow>
                 (case insertAt path off x (children ! i) of
                    Some child' \<Rightarrow> Some (PageElement mark tagName cls (children[i := child']))
                  | None \<Rightarrow> None))
          else None)"

text \<open>
  Whether the range partially contains a node that is not a text node, the case in which
  \<^verbatim>\<open>surroundContents\<close> throws: below the common ancestor, the child on the way to a boundary
  point is an element.
\<close>

definition sideElement :: "nat list \<Rightarrow> pageNode \<Rightarrow> bool" where
  "sideElement path n =
     (case (path, n) of
        (i # p, PageElement mark tagName cls children) \<Rightarrow>
          i < length children
          \<and> (case children ! i of PageElement m t c ch \<Rightarrow> True | PageText d \<Rightarrow> False)
      | _ \<Rightarrow> False)"

fun partialElement :: "nat list \<Rightarrow> nat list \<Rightarrow> pageNode \<Rightarrow> bool" where
  "partialElement (i # p) (j # q) n =
     (if i = j then
        (case n of
           PageText d \<Rightarrow> False
         | PageElement mark tagName cls children \<Rightarrow>
             i < length children \<and> partialElement p q (children ! i))
      else sideElement (i # p) n \<or> sideElement (j # q) n)"
| "partialElement sp ep n = (sideElement sp n \<or> sideElement ep n)"

subsection \<open>Unwrapping and \<^verbatim>\<open>normalize\<close>\<close>

text \<open>
  In a list of children, the first child of the element at index \<open>i\<close> moved to just before
  that element; and the list without its element at index \<open>i\<close>.
\<close>

definition liftFirstChild :: "nat \<Rightarrow> pageNode list \<Rightarrow> pageNode list" where
  "liftFirstChild i children =
     (if i < length children then
        (case children ! i of
           PageElement mark tagName cls (x # xs) \<Rightarrow>
             take i children @ x # PageElement mark tagName cls xs # drop (Suc i) children
         | _ \<Rightarrow> children)
      else children)"

definition removeNth :: "nat \<Rightarrow> 'a list \<Rightarrow> 'a list" where
  "removeNth i xs = take i xs @ drop (Suc i) xs"

text \<open>
  \<^verbatim>\<open>normalize()\<close>: in every list of children below the node, each run of adjacent text
  nodes becomes one text node with the concatenated data, and no empty text node stays.
\<close>

fun mergeText :: "pageNode list \<Rightarrow> pageNode list" where
  "mergeText [] = []"
| "mergeText (PageElement mark tagName cls children # ns) =
     PageElement mark tagName cls children # mergeText ns"
| "mergeText (PageText d # ns) =
     (case mergeText ns of
        PageText d' # ms \<Rightarrow> PageText (d @ d') # ms
      | ms \<Rightarrow> if d = [] then ms else PageText d # ms)"

fun normalizeTree :: "pageNode \<Rightarrow> pageNode" where
  "normalizeTree (PageText d) = PageText d"
| "normalizeTree (PageElement mark tagName cls children) =
     PageElement mark tagName cls (mergeText (map normalizeTree children))"

section \<open>The browser's calls on the tree\<close>

text \<open>
  The references the highlighter holds: a \<^verbatim>\<open>span\<close> it made, by its number; a document
  fragment returned by \<^verbatim>\<open>extractContents\<close>, by its number; and a node of the page reached
  from a \<^verbatim>\<open>span\<close> (its parent, its first child), by the path it has in the tree at that
  moment.
\<close>

datatype nodeRef = SpanRef nat | FragmentRef nat | NodeAtPath "nat list"

text \<open>
  The state of the page: the tree below \<^verbatim>\<open>document.body\<close>, the \<^verbatim>\<open>span\<close>s made and not yet
  inserted, the fragments, the range that \<^verbatim>\<open>extractContents\<close> has just collapsed with the
  boundary point it collapsed to, and the next number to give out.
\<close>

record pageState =
  pageBody :: pageNode
  detachedSpans :: "(nat \<times> pageNode) list"
  fragments :: "(nat \<times> pageNode list) list"
  collapsedRange :: "(domRangeObj \<times> treeRange) option"
  nextNumber :: nat

text \<open>
  The boundary points of a range. A range that has just been collapsed by
  \<^verbatim>\<open>extractContents\<close> lies where the extraction left it. For every other range the browser
  has kept the boundary points up to date through all changes of the tree since the range
  was made; that answer is the parameter \<open>live\<close>, and nothing is assumed about it.
\<close>

definition currentBoundary ::
  "(pageState \<Rightarrow> domRangeObj \<Rightarrow> treeRange) \<Rightarrow> pageState \<Rightarrow> domRangeObj \<Rightarrow> treeRange" where
  "currentBoundary live d r =
     (case collapsedRange d of
        Some (r', b) \<Rightarrow> if r' = r then b else live d r
      | None \<Rightarrow> live d r)"

text \<open>
  \<^verbatim>\<open>document.createElement('span')\<close> with the attributes the code sets: a new element
  outside the tree, without children.
\<close>

definition pageCreateSpan :: "pageState \<Rightarrow> spanAttributes \<Rightarrow> nodeRef \<times> pageState" where
  "pageCreateSpan d a =
     (SpanRef (nextNumber d),
      d\<lparr>detachedSpans :=
           (nextNumber d, PageElement (Some (nextNumber d)) ''SPAN'' (className a) [])
           # detachedSpans d,
        nextNumber := Suc (nextNumber d)\<rparr>)"

text \<open>
  \<^verbatim>\<open>range.surroundContents(newParent)\<close> for a \<^verbatim>\<open>span\<close> that is not in the tree: it throws
  when the range partially contains an element; otherwise the contents of the range are
  extracted, the \<^verbatim>\<open>span\<close> loses the children it has, it is inserted where the range has
  collapsed and it receives the extracted contents.
\<close>

definition pageSurroundContents ::
  "(pageState \<Rightarrow> domRangeObj \<Rightarrow> treeRange) \<Rightarrow> pageState \<Rightarrow> domRangeObj \<Rightarrow> nodeRef
     \<Rightarrow> (domException + unit) \<times> pageState" where
  "pageSurroundContents live d r newParent =
     (case newParent of
        SpanRef k \<Rightarrow>
          (case map_of (detachedSpans d) k of
             Some (PageElement mark tagName cls children) \<Rightarrow>
               (let b = currentBoundary live d r in
                if partialElement (startPath b) (endPath b) (pageBody d)
                then (Inl InvalidStateError, d)
                else (case extractIn (startPath b) (startOff b) (endPath b) (endOff b)
                             (pageBody d) of
                        None \<Rightarrow> (Inl InvalidStateError, d)
                      | Some (body1, fragment, cp, co) \<Rightarrow>
                          (case insertAt cp co (PageElement mark tagName cls fragment) body1 of
                             None \<Rightarrow> (Inl HierarchyRequestError, d)
                           | Some body2 \<Rightarrow>
                               (Inr (),
                                d\<lparr>pageBody := body2,
                                  detachedSpans := filter (\<lambda>e. fst e \<noteq> k) (detachedSpans d),
                                  collapsedRange := None\<rparr>))))
           | _ \<Rightarrow> (Inl HierarchyRequestError, d))
      | _ \<Rightarrow> (Inl HierarchyRequestError, d))"

text \<open>
  \<^verbatim>\<open>range.extractContents()\<close>: the contents leave the tree for a new fragment and the range
  collapses.
\<close>

definition pageExtractContents ::
  "(pageState \<Rightarrow> domRangeObj \<Rightarrow> treeRange) \<Rightarrow> pageState \<Rightarrow> domRangeObj
     \<Rightarrow> (domException + nodeRef) \<times> pageState" where
  "pageExtractContents live d r =
     (let b = currentBoundary live d r in
      case extractIn (startPath b) (startOff b) (endPath b) (endOff b) (pageBody d) of
        None \<Rightarrow> (Inl InvalidStateError, d)
      | Some (body1, fragment, cp, co) \<Rightarrow>
          (Inr (FragmentRef (nextNumber d)),
           d\<lparr>pageBody := body1,
             fragments := (nextNumber d, fragment) # fragments d,
             collapsedRange :=
               Some (r, \<lparr>startPath = cp, startOff = co, endPath = cp, endOff = co\<rparr>),
             nextNumber := Suc (nextNumber d)\<rparr>))"

text \<open>
  \<^verbatim>\<open>span.appendChild(contents)\<close> for a \<^verbatim>\<open>span\<close> outside the tree and a fragment: the
  children of the fragment become the last children of the \<^verbatim>\<open>span\<close>, and the fragment is
  left empty.
\<close>

definition pageAppendChild ::
  "pageState \<Rightarrow> nodeRef \<Rightarrow> nodeRef \<Rightarrow> (domException + unit) \<times> pageState" where
  "pageAppendChild d parent child =
     (case (parent, child) of
        (SpanRef k, FragmentRef j) \<Rightarrow>
          (case (map_of (detachedSpans d) k, map_of (fragments d) j) of
             (Some (PageElement mark tagName cls children), Some fragment) \<Rightarrow>
               (Inr (),
                d\<lparr>detachedSpans :=
                     (k, PageElement mark tagName cls (children @ fragment)) # detachedSpans d,
                   fragments := (j, []) # fragments d\<rparr>)
           | _ \<Rightarrow> (Inl HierarchyRequestError, d))
      | _ \<Rightarrow> (Inl HierarchyRequestError, d))"

text \<open>
  \<^verbatim>\<open>range.insertNode(span)\<close> for a \<^verbatim>\<open>span\<close> outside the tree: it enters the tree at the
  start of the range.
\<close>

definition pageInsertNode ::
  "(pageState \<Rightarrow> domRangeObj \<Rightarrow> treeRange) \<Rightarrow> pageState \<Rightarrow> domRangeObj \<Rightarrow> nodeRef
     \<Rightarrow> (domException + unit) \<times> pageState" where
  "pageInsertNode live d r newNode =
     (case newNode of
        SpanRef k \<Rightarrow>
          (case map_of (detachedSpans d) k of
             Some x \<Rightarrow>
               (let b = currentBoundary live d r in
                case insertAt (startPath b) (startOff b) x (pageBody d) of
                  None \<Rightarrow> (Inl HierarchyRequestError, d)
                | Some body1 \<Rightarrow>
                    (Inr (),
                     d\<lparr>pageBody := body1,
                       detachedSpans := filter (\<lambda>e. fst e \<noteq> k) (detachedSpans d),
                       collapsedRange := None\<rparr>))
           | None \<Rightarrow> (Inl HierarchyRequestError, d))
      | _ \<Rightarrow> (Inl HierarchyRequestError, d))"

text \<open>
  \<^verbatim>\<open>node.parentNode\<close> and \<^verbatim>\<open>node.firstChild\<close>. A \<^verbatim>\<open>span\<close> that is not in the tree has no
  parent; the parent of \<^verbatim>\<open>document.body\<close> lies outside the tree kept here.
\<close>

definition pageParentNode :: "pageState \<Rightarrow> nodeRef \<Rightarrow> nodeRef option" where
  "pageParentNode d n =
     (case n of
        SpanRef k \<Rightarrow>
          (case findSpan k (pageBody d) of
             Some path \<Rightarrow> if path = [] then None else Some (NodeAtPath (butlast path))
           | None \<Rightarrow> None)
      | NodeAtPath path \<Rightarrow>
          (if path \<noteq> [] \<and> nodeAtPage path (pageBody d) \<noteq> None
           then Some (NodeAtPath (butlast path)) else None)
      | FragmentRef j \<Rightarrow> None)"

definition pathOf :: "pageState \<Rightarrow> nodeRef \<Rightarrow> nat list option" where
  "pathOf d n =
     (case n of
        SpanRef k \<Rightarrow> findSpan k (pageBody d)
      | NodeAtPath path \<Rightarrow> (if nodeAtPage path (pageBody d) \<noteq> None then Some path else None)
      | FragmentRef j \<Rightarrow> None)"

definition pageFirstChild :: "pageState \<Rightarrow> nodeRef \<Rightarrow> nodeRef option" where
  "pageFirstChild d n =
     (case pathOf d n of
        Some path \<Rightarrow>
          (case nodeAtPage path (pageBody d) of
             Some (PageElement mark tagName cls (x # xs)) \<Rightarrow> Some (NodeAtPath (path @ [0]))
           | _ \<Rightarrow> None)
      | None \<Rightarrow> None)"

text \<open>
  \<^verbatim>\<open>parent.insertBefore(child, el)\<close> for a \<^verbatim>\<open>span\<close> \<open>el\<close> and its first child: \<open>el\<close> has to
  be a child of \<open>parent\<close>, and the child moves to the place before \<open>el\<close>. The highlighter
  makes no other call of \<^verbatim>\<open>insertBefore\<close>; any other is answered with an exception.
\<close>

definition pageInsertBefore ::
  "pageState \<Rightarrow> nodeRef \<Rightarrow> nodeRef \<Rightarrow> nodeRef \<Rightarrow> (domException + unit) \<times> pageState" where
  "pageInsertBefore d parent child el =
     (case (parent, el) of
        (NodeAtPath pp, SpanRef k) \<Rightarrow>
          (case findSpan k (pageBody d) of
             Some path \<Rightarrow>
               if path \<noteq> [] \<and> butlast path = pp then
                 (if pageFirstChild d el = Some child
                  then (Inr (),
                        d\<lparr>pageBody :=
                             modifyAt pp (onChildren (liftFirstChild (last path))) (pageBody d),
                          collapsedRange := None\<rparr>)
                  else (Inl HierarchyRequestError, d))
               else (Inl NotFoundError, d)
           | None \<Rightarrow> (Inl NotFoundError, d))
      | _ \<Rightarrow> (Inl NotFoundError, d))"

text \<open>
  \<^verbatim>\<open>parent.removeChild(el)\<close> for a \<^verbatim>\<open>span\<close> \<open>el\<close>: it throws when \<open>el\<close> is not a child of
  \<open>parent\<close>; otherwise \<open>el\<close> leaves the tree with what it contains.
\<close>

definition pageRemoveChild ::
  "pageState \<Rightarrow> nodeRef \<Rightarrow> nodeRef \<Rightarrow> (domException + unit) \<times> pageState" where
  "pageRemoveChild d parent el =
     (case (parent, el) of
        (NodeAtPath pp, SpanRef k) \<Rightarrow>
          (case findSpan k (pageBody d) of
             Some path \<Rightarrow>
               if path \<noteq> [] \<and> butlast path = pp then
                 (case nodeAtPage path (pageBody d) of
                    Some x \<Rightarrow>
                      (Inr (),
                       d\<lparr>pageBody := modifyAt pp (onChildren (removeNth (last path))) (pageBody d),
                         detachedSpans := (k, x) # detachedSpans d,
                         collapsedRange := None\<rparr>)
                  | None \<Rightarrow> (Inl NotFoundError, d))
               else (Inl NotFoundError, d)
           | None \<Rightarrow> (Inl NotFoundError, d))
      | _ \<Rightarrow> (Inl NotFoundError, d))"

definition pageIsElementNode :: "pageState \<Rightarrow> nodeRef \<Rightarrow> bool" where
  "pageIsElementNode d n =
     (case n of
        SpanRef k \<Rightarrow> True
      | FragmentRef j \<Rightarrow> False
      | NodeAtPath path \<Rightarrow>
          (case nodeAtPage path (pageBody d) of
             Some (PageElement mark tagName cls children) \<Rightarrow> True
           | _ \<Rightarrow> False))"

definition pageNormalize :: "pageState \<Rightarrow> nodeRef \<Rightarrow> pageState" where
  "pageNormalize d n =
     (case pathOf d n of
        Some path \<Rightarrow>
          d\<lparr>pageBody := modifyAt path normalizeTree (pageBody d), collapsedRange := None\<rparr>
      | None \<Rightarrow> d)"

text \<open>
  The browser over the page state. The answers that do not come from the tree are
  parameters: the boundary points of the live ranges, the clock, the case mapping, and
  the tooltip manager's \<^verbatim>\<open>hideTooltip\<close>.
\<close>

definition pageBrowser ::
  "(pageState \<Rightarrow> domRangeObj \<Rightarrow> treeRange) \<Rightarrow> (pageState \<Rightarrow> nat) \<Rightarrow> (jsstring \<Rightarrow> jsstring)
     \<Rightarrow> ('t \<Rightarrow> 't) \<Rightarrow> (pageState, nodeRef, 't) browser" where
  "pageBrowser live clock lower hide =
     \<lparr>bodyTree = (\<lambda>d. plainTree (pageBody d)),
      rangeBoundary = currentBoundary live,
      dateNow = clock,
      toLowerCase = lower,
      createSpan = pageCreateSpan,
      surroundContents = pageSurroundContents live,
      extractContents = pageExtractContents live,
      appendChild = pageAppendChild,
      insertNode = pageInsertNode live,
      parentNode = pageParentNode,
      firstChild = pageFirstChild,
      insertBefore = pageInsertBefore,
      removeChild = pageRemoveChild,
      isElementNode = pageIsElementNode,
      normalizeNode = pageNormalize,
      hideTooltip = hide\<rparr>"

section \<open>Auxiliary notions for the proofs\<close>

text \<open>
  White-space structure of strings: no two adjacent white-space code units; every
  white-space code unit is a plain space; and the normal form produced by \<open>normalizeText\<close>.
\<close>

fun noWsPair :: "jsstring \<Rightarrow> bool" where
  "noWsPair [] = True"
| "noWsPair [c] = True"
| "noWsPair (c # d # cs) = (\<not> (isWhiteSpace c \<and> isWhiteSpace d) \<and> noWsPair (d # cs))"

definition plainSpaces :: "jsstring \<Rightarrow> bool" where
  "plainSpaces s \<longleftrightarrow> (\<forall>c \<in> set s. isWhiteSpace c \<longrightarrow> c = SP)"

definition normalForm :: "jsstring \<Rightarrow> bool" where
  "normalForm s \<longleftrightarrow> plainSpaces s \<and> noWsPair s \<and>
     (s \<noteq> [] \<longrightarrow> \<not> isWhiteSpace (hd s) \<and> \<not> isWhiteSpace (last s))"

text \<open>A list of map entries laid out from offset \<open>g\<close> on, one separator position apart.\<close>

fun contiguousFrom :: "nat \<Rightarrow> textPositionMapEntry list \<Rightarrow> bool" where
  "contiguousFrom g [] = True"
| "contiguousFrom g (e # es) =
     (startOffset e = g \<and> endOffset e = g + length (normalizedText e) \<and>
      normalizedText e \<noteq> [] \<and> contiguousFrom (endOffset e + 1) es)"

definition segmentOf :: "nat \<Rightarrow> nat \<times> textNode \<Rightarrow> textPositionMapEntry" where
  "segmentOf g p = \<lparr>node = fst p, startOffset = g,
                     endOffset = g + length (normalizeText (textContent (snd p))),
                     normalizedText = normalizeText (textContent (snd p))\<rparr>"

text \<open>
  What the policy of the exact search says, stated apart from the loop: \<open>t\<close> occurs in
  \<open>s\<close> at index \<open>k\<close>; all indices of occurrences, in increasing order; and the ranges
  made for a list of match indices.
\<close>

definition occursAt :: "jsstring \<Rightarrow> jsstring \<Rightarrow> nat \<Rightarrow> bool" where
  "occursAt s t k \<longleftrightarrow> k + length t \<le> length s \<and> take (length t) (drop k s) = t"

definition occurrencesFrom :: "jsstring \<Rightarrow> jsstring \<Rightarrow> nat \<Rightarrow> nat list" where
  "occurrencesFrom s t from = filter (occursAt s t) [from..<length s]"

definition allOccurrences :: "jsstring \<Rightarrow> jsstring \<Rightarrow> nat list" where
  "allOccurrences s t = occurrencesFrom s t 0"

definition rangesAt :: "textMatcher \<Rightarrow> nat \<Rightarrow> nat list \<Rightarrow> domRange list" where
  "rangesAt m len ks =
     concat (map (\<lambda>k. case createDOMRange m (int k) (int k + int len) of
                         Some r \<Rightarrow> [r] | None \<Rightarrow> []) ks)"

text \<open>
  The bookkeeping of \<open>denormalizeOffset\<close>: the normalized units its loop counts on a
  string, given whether the code unit before it is white space, and the number of code
  units the loop consumes until \<open>k\<close> units are counted.
\<close>

fun unitsFrom :: "bool \<Rightarrow> jsstring \<Rightarrow> nat" where
  "unitsFrom b [] = 0"
| "unitsFrom b (c # cs) = (if isWhiteSpace c \<and> b then 0 else 1) + unitsFrom (isWhiteSpace c) cs"

fun advance :: "bool \<Rightarrow> jsstring \<Rightarrow> nat \<Rightarrow> nat" where
  "advance b [] k = 0"
| "advance b (c # cs) k =
     (if k = 0 then 0
      else 1 + advance (isWhiteSpace c) cs (if isWhiteSpace c \<and> b then k else k - 1))"

definition prevWs :: "jsstring \<Rightarrow> nat \<Rightarrow> bool" where
  "prevWs text i \<longleftrightarrow> i \<noteq> 0 \<and> isWhiteSpace (text ! (i - 1))"

text \<open>Small documents for the concrete instances.\<close>

definition exampleDoc :: document where
  "exampleDoc =
     [\<lparr>parentTagName = Some ''P'', textContent = js ''ab  c ''\<rparr>,
      \<lparr>parentTagName = Some ''SCRIPT'', textContent = js ''x''\<rparr>,
      \<lparr>parentTagName = Some ''B'', textContent = js ''de''\<rparr>]"

definition twoNodeDoc :: document where
  "twoNodeDoc =
     [\<lparr>parentTagName = Some ''B'', textContent = js ''a''\<rparr>,
      \<lparr>parentTagName = Some ''I'', textContent = js ''b''\<rparr>]"

definition sentenceDoc :: document where
  "sentenceDoc = [\<lparr>parentTagName = Some ''P'', textContent = js ''the sky is falling''\<rparr>]"

definition repeatDoc :: document where
  "repeatDoc = [\<lparr>parentTagName = Some ''P'', textContent = js ''aaa''\<rparr>]"

text \<open>
  What one index of the fuzzy loop adds to the result: the range of the window of \<open>w\<close>
  words that starts at word \<open>i\<close>, when its similarity reaches the threshold and a range can
  be made for the offsets the loop computes.
\<close>

definition fuzzyAt ::
  "(jsstring \<Rightarrow> jsstring) \<Rightarrow> textMatcher \<Rightarrow> jsstring \<Rightarrow> rat \<Rightarrow> nat \<Rightarrow> jsstring list \<Rightarrow> nat
     \<Rightarrow> domRange list" where
  "fuzzyAt lc m nt threshold w fw i =
     (if calculateSimilarity lc nt (join [SP] (slice fw i (i + w))) \<ge> threshold then
        (case createDOMRange m (int (length (join [SP] (slice fw 0 i))))
                (int (length (join [SP] (slice fw 0 i)) + length (join [SP] (slice fw i (i + w))))) of
           Some r \<Rightarrow> [r]
         | None \<Rightarrow> [])
      else [])"

text \<open>A case mapping for the concrete instances, and a document for the fuzzy search.\<close>

definition asciiLowerCase :: "jsstring \<Rightarrow> jsstring" where
  "asciiLowerCase s = map (\<lambda>c. if 0x41 \<le> c \<and> c \<le> 0x5A then c + 0x20 else c) s"

definition fuzzyDoc :: document where
  "fuzzyDoc = [\<lparr>parentTagName = Some ''P'', textContent = js ''a x b y c z d x e y f z g x''\<rparr>]"

text \<open>
  A stub browser for the concrete instances: its document does not change, every wrap
  throws, and a marker with handle 1 has as many children as the state says.
\<close>

definition fuzzyTree :: domNode where
  "fuzzyTree =
     ElementNode ''BODY'' []
       [ElementNode ''P'' [] [TextNode (js ''a x b y c z d x e y f z g x'')]]"

definition stubBrowser :: "(nat, nat, unit) browser" where
  "stubBrowser =
     \<lparr>bodyTree = (\<lambda>d. fuzzyTree),
      rangeBoundary = (\<lambda>d r. treeRangeOf fuzzyTree r),
      dateNow = (\<lambda>d. 0),
      toLowerCase = asciiLowerCase,
      createSpan = (\<lambda>d a. (1, d)),
      surroundContents = (\<lambda>d r n. (Inl InvalidStateError, d)),
      extractContents = (\<lambda>d r. (Inl HierarchyRequestError, d)),
      appendChild = (\<lambda>d p c. (Inr (), d)),
      insertNode = (\<lambda>d r n. (Inr (), d)),
      parentNode = (\<lambda>d n. Some 0),
      firstChild = (\<lambda>d n. if n = 1 \<and> 0 < d then Some (10 + d) else None),
      insertBefore = (\<lambda>d p c e. (Inr (), d - 1)),
      removeChild = (\<lambda>d p c. (Inr (), d)),
      isElementNode = (\<lambda>d n. True),
      normalizeNode = (\<lambda>d n. d),
      hideTooltip = (\<lambda>t. t)\<rparr>"

text \<open>
  A law of the tree the browser keeps: \<^verbatim>\<open>parent.insertBefore(child, el)\<close> with \<open>child\<close> the
  first child of \<open>el\<close>, when it returns, has moved that child out of \<open>el\<close>, so some count
  of the children of \<open>el\<close> has gone down.
\<close>

definition movesChildOut :: "('d, 'n, 't) browser \<Rightarrow> bool" where
  "movesChildOut api \<longleftrightarrow>
     (\<exists>count :: 'd \<Rightarrow> 'n \<Rightarrow> nat.
        \<forall>d parent child el d'.
          firstChild api d el = Some child \<longrightarrow>
          insertBefore api d parent child el = (Inr (), d') \<longrightarrow>
          count d' el < count d el)"



text \<open>
  A paragraph \<^verbatim>\<open><p>aa<b>bb</b>cc</p>\<close>; the same paragraph after the quotation \<open>aa bb cc\<close> has
  been wrapped by \<^verbatim>\<open>surroundContents\<close>, which leaves an empty text node on either side of the
  marker; a stub browser that holds this tree and whose wraps succeed; and the highlighter
  that holds the first marker.
\<close>

definition quoteTree :: domNode where
  "quoteTree =
     ElementNode ''BODY'' []
       [ElementNode ''P'' []
          [TextNode (js ''aa''), ElementNode ''B'' [] [TextNode (js ''bb'')], TextNode (js ''cc'')]]"

definition markedTree :: domNode where
  "markedTree =
     ElementNode ''BODY'' []
       [ElementNode ''P'' []
          [TextNode [],
           ElementNode ''SPAN'' (getHighlightClass FullColor loaded_language)
             [TextNode (js ''aa''), ElementNode ''B'' [] [TextNode (js ''bb'')], TextNode (js ''cc'')],
           TextNode []]]"

definition quoteBlock :: manipulationBlock where
  "quoteBlock = \<lparr>original_text = js ''aa bb cc'', manipulation_type = loaded_language,
                  manipulation_description = js ''words'', confidence = 9 / 10\<rparr>"

definition wrappingBrowser :: "(nat, nat, unit) browser" where
  "wrappingBrowser =
     \<lparr>bodyTree = (\<lambda>d. markedTree),
      rangeBoundary = (\<lambda>d r. treeRangeOf markedTree r),
      dateNow = (\<lambda>d. 0),
      toLowerCase = asciiLowerCase,
      createSpan = (\<lambda>d a. (Suc d, Suc d)),
      surroundContents = (\<lambda>d r n. (Inr (), d)),
      extractContents = (\<lambda>d r. (Inl HierarchyRequestError, d)),
      appendChild = (\<lambda>d p c. (Inr (), d)),
      insertNode = (\<lambda>d r n. (Inr (), d)),
      parentNode = (\<lambda>d n. Some 0),
      firstChild = (\<lambda>d n. None),
      insertBefore = (\<lambda>d p c e. (Inr (), d)),
      removeChild = (\<lambda>d p c. (Inr (), d)),
      isElementNode = (\<lambda>d n. True),
      normalizeNode = (\<lambda>d n. d),
      hideTooltip = (\<lambda>t. t)\<rparr>"

definition markedHighlighter :: "(nat, nat, unit) textHighlighter" where
  "markedHighlighter =
     \<lparr>domState = 1,
      highlightedElements =
        [((0, 0, 0),
          \<lparr>element = 1, manipulation = quoteBlock,
            highlightRange = \<lparr>startContainer = 0, rangeStartOffset = 0,
                               endContainer = 2, rangeEndOffset = 2\<rparr>,
            highlightId = (0, 0, 0)\<rparr>)],
      tooltipManager = (),
      currentMode = FullColor\<rparr>"

text \<open>The text of a list of nodes, and a count of the children that markers hold.\<close>

abbreviation textOfAll :: "pageNode list \<Rightarrow> jsstring" where
  "textOfAll ns \<equiv> concat (map pageText ns)"

fun childCount :: "nat \<Rightarrow> pageNode \<Rightarrow> nat" where
  "childCount k (PageText d) = 0"
| "childCount k (PageElement mark tagName cls children) =
     (if mark = Some k then length children else 0) + sum_list (map (childCount k) children)"

text \<open>
  The paragraph \<^verbatim>\<open><p>aa<b>bb</b>cc</p>\<close> as a page nothing has been done to yet; a browser
  over it whose ranges lie where the matcher put them in the tree as it is; a highlighter
  without markers; the quotation \<open>aa bb\<close>, which ends inside the \<^verbatim>\<open>b\<close> element; and the page
  a run has led to, if it has returned.
\<close>

definition quotePage :: pageNode where
  "quotePage =
     PageElement None ''BODY'' []
       [PageElement None ''P'' []
          [PageText (js ''aa''), PageElement None ''B'' [] [PageText (js ''bb'')],
           PageText (js ''cc'')]]"

definition liveInTree :: "pageState \<Rightarrow> domRangeObj \<Rightarrow> treeRange" where
  "liveInTree d r = treeRangeOf (plainTree (pageBody d)) r"

definition quoteBrowser :: "(pageState, nodeRef, unit) browser" where
  "quoteBrowser = pageBrowser liveInTree (\<lambda>d. 0) asciiLowerCase (\<lambda>t. t)"

definition quoteHighlighter :: "(pageState, nodeRef, unit) textHighlighter" where
  "quoteHighlighter =
     \<lparr>domState = \<lparr>pageBody = quotePage, detachedSpans = [], fragments = [],
                   collapsedRange = None, nextNumber = 0\<rparr>,
      highlightedElements = [], tooltipManager = (), currentMode = FullColor\<rparr>"

definition partBlock :: manipulationBlock where
  "partBlock = \<lparr>original_text = js ''aa bb'', manipulation_type = loaded_language,
                 manipulation_description = js ''words'', confidence = 9 / 10\<rparr>"

definition pageAfter ::
  "(domException + (pageState, nodeRef, 't) textHighlighter) option \<Rightarrow> pageNode option" where
  "pageAfter run = (case run of Some (Inr h) \<Rightarrow> Some (pageBody (domState h)) | _ \<Rightarrow> None)"

section \<open>White space and normalization\<close>

lemma isWhiteSpace_SP [simp]: "isWhiteSpace SP"
  by (simp add: isWhiteSpace_def)

lemma collapse_plain: "plainSpaces (collapseWhiteSpace s)"
  by (induction s rule: collapseWhiteSpace.induct) (auto simp: plainSpaces_def)

lemma hd_dropWhile_ws: "dropWhile isWhiteSpace s \<noteq> [] \<Longrightarrow> \<not> isWhiteSpace (hd (dropWhile isWhiteSpace s))"
  using hd_dropWhile by blast

lemma collapse_hd_nonws:
  "s \<noteq> [] \<Longrightarrow> \<not> isWhiteSpace (hd s) \<Longrightarrow> collapseWhiteSpace s \<noteq> [] \<and> hd (collapseWhiteSpace s) = hd s"
  by (cases s) auto

lemma collapse_noWsPair: "noWsPair (collapseWhiteSpace s)"
proof (induction s rule: collapseWhiteSpace.induct)
  case 1
  then show ?case by simp
next
  case (2 c cs)
  show ?case
  proof (cases "isWhiteSpace c")
    case True
    let ?r = "dropWhile isWhiteSpace cs"
    show ?thesis
    proof (cases ?r)
      case Nil
      with True show ?thesis by (simp del: dropWhile_eq_Nil_conv)
    next
      case (Cons d ds)
      then have "\<not> isWhiteSpace d" using hd_dropWhile_ws[of cs] by simp
      with Cons True 2 show ?thesis by simp
    qed
  next
    case False
    with 2 show ?thesis by (cases "collapseWhiteSpace cs") auto
  qed
qed

lemma noWsPair_Cons: "noWsPair (c # cs) \<Longrightarrow> noWsPair cs"
  by (cases cs) auto

lemma noWsPair_dropWhile: "noWsPair s \<Longrightarrow> noWsPair (dropWhile P s)"
  by (induction s) (auto dest: noWsPair_Cons)

lemma noWsPair_append:
  "noWsPair (xs @ ys) \<longleftrightarrow> noWsPair xs \<and> noWsPair ys \<and>
     (xs \<noteq> [] \<and> ys \<noteq> [] \<longrightarrow> \<not> (isWhiteSpace (last xs) \<and> isWhiteSpace (hd ys)))"
proof (induction xs rule: noWsPair.induct)
  case 1
  then show ?case by simp
next
  case (2 c)
  then show ?case by (cases ys) auto
next
  case (3 c d cs)
  then show ?case by auto
qed

lemma noWsPair_rev: "noWsPair (rev s) = noWsPair s"
proof (induction s rule: noWsPair.induct)
  case (3 c d cs)
  then show ?case by (auto simp: noWsPair_append)
qed auto

lemma plainSpaces_trim: "plainSpaces s \<Longrightarrow> plainSpaces (trim s)"
  unfolding plainSpaces_def trim_def
  by (metis set_rev set_dropWhileD)

lemma noWsPair_trim: "noWsPair s \<Longrightarrow> noWsPair (trim s)"
  by (simp add: trim_def noWsPair_rev noWsPair_dropWhile)

lemma hd_rev_dropWhile_rev:
  assumes "dropWhile P (rev xs) \<noteq> []"
  shows "hd (rev (dropWhile P (rev xs))) = hd xs"
proof -
  have "rev xs = takeWhile P (rev xs) @ dropWhile P (rev xs)" by simp
  then have "rev (rev xs) = rev (takeWhile P (rev xs) @ dropWhile P (rev xs))" by (rule arg_cong)
  then have xs: "xs = rev (dropWhile P (rev xs)) @ rev (takeWhile P (rev xs))"
    by (simp only: rev_rev_ident rev_append)
  from assms have "rev (dropWhile P (rev xs)) \<noteq> []" by (simp only: rev_is_Nil_conv not_False_eq_True)
  then have "hd (rev (dropWhile P (rev xs)) @ rev (takeWhile P (rev xs))) = hd (rev (dropWhile P (rev xs)))"
    by (rule hd_append2)
  with xs show ?thesis by simp
qed

lemma trim_ends:
  assumes "trim s \<noteq> []"
  shows "\<not> isWhiteSpace (hd (trim s))" "\<not> isWhiteSpace (last (trim s))"
proof -
  let ?d = "dropWhile isWhiteSpace s"
  let ?e = "dropWhile isWhiteSpace (rev ?d)"
  have e: "?e \<noteq> []" using assms by (simp only: trim_def rev_is_Nil_conv not_False_eq_True)
  then have l: "\<not> isWhiteSpace (hd ?e)" by (rule hd_dropWhile_ws)
  have "last (rev ?e) = hd ?e" by (simp only: last_rev)
  with l show "\<not> isWhiteSpace (last (trim s))" unfolding trim_def by simp
  have d: "?d \<noteq> []"
  proof
    assume "?d = []"
    then have "?e = []" by (simp del: dropWhile_eq_Nil_conv)
    with e show False ..
  qed
  then have hd: "\<not> isWhiteSpace (hd ?d)" by (rule hd_dropWhile_ws)
  from e have "hd (rev ?e) = hd ?d" by (rule hd_rev_dropWhile_rev)
  with hd show "\<not> isWhiteSpace (hd (trim s))" unfolding trim_def by simp
qed

lemma normalForm_normalizeText: "normalForm (normalizeText s)"
  unfolding normalForm_def normalizeText_def
  using trim_ends[of "collapseWhiteSpace s"]
  by (simp add: plainSpaces_trim collapse_plain noWsPair_trim collapse_noWsPair)

lemma dropWhile_keeps: "x \<in> set xs \<Longrightarrow> \<not> P x \<Longrightarrow> x \<in> set (dropWhile P xs)"
  by (induction xs) auto

lemma collapse_keeps:
  "c \<in> set s \<Longrightarrow> \<not> isWhiteSpace c \<Longrightarrow> c \<in> set (collapseWhiteSpace s)"
proof (induction s rule: collapseWhiteSpace.induct)
  case 1
  then show ?case by simp
next
  case (2 d cs)
  show ?case
  proof (cases "isWhiteSpace d")
    case True
    with 2 have "c \<in> set cs" by auto
    then have "c \<in> set (dropWhile isWhiteSpace cs)" using 2(4) by (rule dropWhile_keeps)
    with 2 True show ?thesis by simp
  next
    case False
    with 2 show ?thesis by auto
  qed
qed

lemma trim_keeps: "c \<in> set s \<Longrightarrow> \<not> isWhiteSpace c \<Longrightarrow> c \<in> set (trim s)"
  unfolding trim_def by (simp add: dropWhile_keeps)

lemma collapse_all_ws:
  "\<forall>c \<in> set s. isWhiteSpace c \<Longrightarrow> collapseWhiteSpace s = [] \<or> collapseWhiteSpace s = [SP]"
proof (cases s)
  case Nil
  then show ?thesis by simp
next
  case (Cons a list)
  assume ws: "\<forall>c \<in> set s. isWhiteSpace c"
  with Cons have "dropWhile isWhiteSpace list = []" by simp
  then have "collapseWhiteSpace (dropWhile isWhiteSpace list) = []" by (simp only: collapseWhiteSpace.simps)
  with ws Cons show ?thesis by simp
qed

lemma trim_Nil [simp]: "trim [] = []"
  by (simp add: trim_def)

lemma trim_SP [simp]: "trim [SP] = []"
  by (simp add: trim_def)

lemma normalizeText_empty_iff: "normalizeText s = [] \<longleftrightarrow> (\<forall>c \<in> set s. isWhiteSpace c)"
proof
  assume e: "normalizeText s = []"
  show "\<forall>c \<in> set s. isWhiteSpace c"
  proof (rule ballI, rule ccontr)
    fix c assume "c \<in> set s" "\<not> isWhiteSpace c"
    then have "c \<in> set (normalizeText s)"
      unfolding normalizeText_def by (intro trim_keeps collapse_keeps)
    with e show False by simp
  qed
next
  assume "\<forall>c \<in> set s. isWhiteSpace c"
  from collapse_all_ws[OF this] show "normalizeText s = []"
    unfolding normalizeText_def by auto
qed

lemma collapse_fixed: "plainSpaces s \<Longrightarrow> noWsPair s \<Longrightarrow> collapseWhiteSpace s = s"
proof (induction s rule: collapseWhiteSpace.induct)
  case 1
  then show ?case by simp
next
  case (2 c cs)
  from 2(3) have pc: "plainSpaces cs" by (simp add: plainSpaces_def)
  from 2(4) have nc: "noWsPair cs" by (rule noWsPair_Cons)
  show ?case
  proof (cases "isWhiteSpace c")
    case True
    with 2(3) have c: "c = SP" by (simp add: plainSpaces_def)
    have d: "dropWhile isWhiteSpace cs = cs" using 2(4) True by (cases cs) auto
    from 2(1)[OF True] pc nc d have "collapseWhiteSpace cs = cs" by simp
    with True c d show ?thesis by simp
  next
    case False
    with 2(2)[OF False pc nc] show ?thesis by simp
  qed
qed

lemma trim_fixed:
  "s \<noteq> [] \<longrightarrow> \<not> isWhiteSpace (hd s) \<and> \<not> isWhiteSpace (last s) \<Longrightarrow> trim s = s"
proof (cases s)
  case Nil
  then show ?thesis by simp
next
  case (Cons c cs)
  assume "s \<noteq> [] \<longrightarrow> \<not> isWhiteSpace (hd s) \<and> \<not> isWhiteSpace (last s)"
  with Cons have h: "\<not> isWhiteSpace c" and l: "\<not> isWhiteSpace (last s)" by auto
  from h Cons have d: "dropWhile isWhiteSpace s = s" by simp
  from Cons have "rev s \<noteq> []" by simp
  moreover have "hd (rev s) = last s" using Cons by (simp add: hd_rev)
  ultimately have "dropWhile isWhiteSpace (rev s) = rev s" using l
    by (simp only: dropWhile_eq_self_iff not_False_eq_True simp_thms)
  with d show ?thesis by (simp add: trim_def)
qed

lemma normalizeText_fixed: "normalForm s \<Longrightarrow> normalizeText s = s"
  by (simp add: normalForm_def normalizeText_def collapse_fixed trim_fixed)

section \<open>The text index\<close>

lemma buildLoop_Cons:
  "buildLoop (p # rest) g acc =
     (if normalizeText (textContent (snd p)) = [] then buildLoop rest g acc
      else buildLoop rest (g + length (normalizeText (textContent (snd p))) + 1)
             (acc @ [segmentOf g p]))"
  by (cases p) (simp add: Let_def segmentOf_def)

lemma buildLoop_acc: "buildLoop ns g acc = acc @ buildLoop ns g []"
proof (induction ns arbitrary: g acc)
  case Nil
  then show ?case by simp
next
  case (Cons p rest)
  show ?case
  proof (cases "normalizeText (textContent (snd p)) = []")
    case True
    then show ?thesis using Cons[of g acc] by (simp add: buildLoop_Cons)
  next
    case False
    let ?g = "g + length (normalizeText (textContent (snd p))) + 1"
    have "buildLoop (p # rest) g acc = (acc @ [segmentOf g p]) @ buildLoop rest ?g []"
      using False Cons[of ?g "acc @ [segmentOf g p]"] by (simp add: buildLoop_Cons)
    moreover have "buildLoop (p # rest) g [] = [segmentOf g p] @ buildLoop rest ?g []"
      using False Cons[of ?g "[segmentOf g p]"] by (simp add: buildLoop_Cons)
    ultimately show ?thesis by simp
  qed
qed

lemma buildLoop_step:
  "buildLoop (p # rest) g [] =
     (if normalizeText (textContent (snd p)) = [] then buildLoop rest g []
      else segmentOf g p # buildLoop rest (g + length (normalizeText (textContent (snd p))) + 1) [])"
  using buildLoop_acc[of rest "g + length (normalizeText (textContent (snd p))) + 1" "[segmentOf g p]"]
  by (simp add: buildLoop_Cons)

lemma buildLoop_contiguous: "contiguousFrom g (buildLoop ns g [])"
  by (induction ns arbitrary: g) (simp_all add: buildLoop_step segmentOf_def)

lemma buildLoop_node:
  "map node (buildLoop ns g []) =
     map fst (filter (\<lambda>p. normalizeText (textContent (snd p)) \<noteq> []) ns)"
  by (induction ns arbitrary: g) (simp_all add: buildLoop_step segmentOf_def)

lemma buildLoop_entry:
  "e \<in> set (buildLoop ns g []) \<Longrightarrow>
     \<exists>n. (node e, n) \<in> set ns \<and> normalizedText e = normalizeText (textContent n)"
proof (induction ns arbitrary: g)
  case Nil
  then show ?case by simp
next
  case (Cons p rest)
  then show ?case
    by (cases p) (fastforce simp: buildLoop_step segmentOf_def split: if_splits)
qed

lemma walkerNodes_fst: "sorted_wrt (<) (map fst (walkerNodes doc))"
proof -
  have "map fst (walkerNodes doc) = map fst (filter (\<lambda>(i, n). acceptNode n) (zip [0..<length doc] doc))"
    by (simp add: walkerNodes_def)
  have s: "sorted_wrt (<) (map fst (zip [0..<length doc] doc))" by simp
  have "sorted_wrt (\<lambda>a b. fst a < fst b) (zip [0..<length doc] doc)"
    using s by (simp only: sorted_wrt_map)
  then have "sorted_wrt (\<lambda>a b. fst a < fst b) (walkerNodes doc)"
    unfolding walkerNodes_def by (rule sorted_wrt_filter)
  then show ?thesis by (simp only: sorted_wrt_map)
qed

lemma walkerNodes_mem:
  "(i, n) \<in> set (walkerNodes doc) \<Longrightarrow> i < length doc \<and> n = doc ! i \<and> acceptNode n"
  unfolding walkerNodes_def by (auto simp: set_zip)

lemma map_node_sorted:
  "sorted_wrt (<) (map node (buildLoop (walkerNodes doc) 0 []))"
proof -
  have "sorted_wrt (\<lambda>a b. fst a < fst b) (walkerNodes doc)"
    using walkerNodes_fst[of doc] by (simp only: sorted_wrt_map)
  then have "sorted_wrt (\<lambda>a b. fst a < fst b)
               (filter (\<lambda>p. normalizeText (textContent (snd p)) \<noteq> []) (walkerNodes doc))"
    by (rule sorted_wrt_filter)
  then show ?thesis by (simp only: buildLoop_node sorted_wrt_map)
qed

(* join structure *)

lemma join_Cons: "join sep (x # xs) = (if xs = [] then x else x @ sep @ join sep xs)"
  by (cases xs) simp_all

lemma slice_append_shift:
  "length xs \<le> i \<Longrightarrow> slice (xs @ ys) i j = slice ys (i - length xs) (j - length xs)"
  by (simp add: slice_def)

lemma nth_append_shift: "length xs \<le> i \<Longrightarrow> (xs @ ys) ! i = ys ! (i - length xs)"
  by (simp add: nth_append)

lemma contiguous_bounds:
  "contiguousFrom g es \<Longrightarrow> e \<in> set es \<Longrightarrow>
     g \<le> startOffset e \<and> startOffset e < endOffset e \<and>
     endOffset e = startOffset e + length (normalizedText e) \<and>
     endOffset e \<le> g + length (join [SP] (map normalizedText es))"
proof (induction es arbitrary: g)
  case Nil
  then show ?case by simp
next
  case (Cons a es)
  show ?case
  proof (cases "e = a")
    case True
    with Cons.prems show ?thesis by (auto simp: join_Cons)
  next
    case False
    with Cons.prems have m: "e \<in> set es" and c: "contiguousFrom (endOffset a + 1) es" by auto
    from Cons.IH[OF c m] Cons.prems(1) m show ?thesis by (auto simp: join_Cons)
  qed
qed

lemma contiguous_slice:
  "contiguousFrom g es \<Longrightarrow> e \<in> set es \<Longrightarrow>
     slice (join [SP] (map normalizedText es)) (startOffset e - g) (endOffset e - g) = normalizedText e"
proof (induction es arbitrary: g)
  case Nil
  then show ?case by simp
next
  case (Cons a es)
  show ?case
  proof (cases "e = a")
    case True
    with Cons.prems show ?thesis by (auto simp: join_Cons slice_def)
  next
    case False
    with Cons.prems have m: "e \<in> set es" and c: "contiguousFrom (endOffset a + 1) es" by auto
    from contiguous_bounds[OF c m] have b: "endOffset a + 1 \<le> startOffset e" by simp
    have es: "es \<noteq> []" using m by auto
    from Cons.prems(1) have a: "endOffset a = g + length (normalizedText a)" by simp
    have "slice (join [SP] (map normalizedText (a # es))) (startOffset e - g) (endOffset e - g)
        = slice (normalizedText a @ [SP] @ join [SP] (map normalizedText es)) (startOffset e - g) (endOffset e - g)"
      using es by (simp add: join_Cons)
    also have "\<dots> = slice ((normalizedText a @ [SP]) @ join [SP] (map normalizedText es)) (startOffset e - g) (endOffset e - g)"
      by simp
    also have "\<dots> = slice (join [SP] (map normalizedText es))
                       (startOffset e - g - length (normalizedText a @ [SP]))
                       (endOffset e - g - length (normalizedText a @ [SP]))"
      using a b by (intro slice_append_shift) simp
    also have "\<dots> = slice (join [SP] (map normalizedText es))
                       (startOffset e - (endOffset a + 1)) (endOffset e - (endOffset a + 1))"
      using a by simp
    also have "\<dots> = normalizedText e" using Cons.IH[OF c m] .
    finally show ?thesis .
  qed
qed

lemma contiguous_Suc:
  "contiguousFrom g es \<Longrightarrow> Suc i < length es \<Longrightarrow>
     startOffset (es ! Suc i) = endOffset (es ! i) + 1 \<and>
     (join [SP] (map normalizedText es)) ! (endOffset (es ! i) - g) = SP"
proof (induction es arbitrary: g i)
  case Nil
  then show ?case by simp
next
  case (Cons a es)
  from Cons.prems obtain b es' where es: "es = b # es'" by (cases es) auto
  show ?case
  proof (cases i)
    case 0
    with Cons.prems es show ?thesis by (simp add: nth_append)
  next
    case (Suc j)
    with Cons.prems have c: "contiguousFrom (endOffset a + 1) es" and j: "Suc j < length es" by auto
    from Cons.IH[OF c j] have ih: "startOffset (es ! Suc j) = endOffset (es ! j) + 1"
      "join [SP] (map normalizedText es) ! (endOffset (es ! j) - (endOffset a + 1)) = SP" by auto
    have m: "es ! j \<in> set es" using j by simp
    from contiguous_bounds[OF c m] have b: "endOffset a + 1 \<le> endOffset (es ! j)" by simp
    from Cons.prems(1) have a: "endOffset a = g + length (normalizedText a)" by simp
    have "((normalizedText a @ [SP]) @ join [SP] (map normalizedText es)) ! (endOffset (es ! j) - g)
        = join [SP] (map normalizedText es) ! (endOffset (es ! j) - g - length (normalizedText a @ [SP]))"
      using a b by (intro nth_append_shift) simp
    then have "(normalizedText a @ [SP] @ join [SP] (map normalizedText es)) ! (endOffset (es ! j) - g)
        = join [SP] (map normalizedText es) ! (endOffset (es ! j) - (endOffset a + 1))"
      using a by simp
    with ih Suc es show ?thesis by (simp add: join_Cons)
  qed
qed

lemma buildTextNodeMap_simps:
  "rootTextNodes (buildTextNodeMap doc) = doc"
  "textPositionMap (buildTextNodeMap doc) = buildLoop (walkerNodes doc) 0 []"
  "fullNormalizedText (buildTextNodeMap doc) =
     join [SP] (map normalizedText (buildLoop (walkerNodes doc) 0 []))"
  by (simp_all add: buildTextNodeMap_def Let_def)

lemma positionMap_contiguous: "contiguousFrom 0 (textPositionMap (buildTextNodeMap doc))"
  by (simp add: buildTextNodeMap_simps buildLoop_contiguous)

lemma positionMap_entry:
  assumes "e \<in> set (textPositionMap (buildTextNodeMap doc))"
  shows "node e < length doc"
    and "normalizedText e = normalizeText (textContent (doc ! node e))"
proof -
  from assms have "e \<in> set (buildLoop (walkerNodes doc) 0 [])"
    by (simp only: buildTextNodeMap_simps)
  from buildLoop_entry[OF this] obtain n where n: "(node e, n) \<in> set (walkerNodes doc)"
      "normalizedText e = normalizeText (textContent n)"
    by blast
  from walkerNodes_mem[OF n(1)] n(2)
  show "node e < length doc" "normalizedText e = normalizeText (textContent (doc ! node e))"
    by auto
qed

lemma contiguous_sorted_offsets:
  "contiguousFrom c es \<Longrightarrow> sorted_wrt (\<lambda>a b. endOffset a < startOffset b) es"
proof (induction es arbitrary: c)
  case Nil
  then show ?case by simp
next
  case (Cons a es)
  from Cons.prems have c: "contiguousFrom (endOffset a + 1) es" by auto
  have "\<forall>e \<in> set es. endOffset a < startOffset e"
  proof
    fix e assume "e \<in> set es"
    from contiguous_bounds[OF c this] show "endOffset a < startOffset e" by simp
  qed
  with Cons.IH[OF c] show ?case by simp
qed

lemma sorted_wrt_conj:
  "sorted_wrt P xs \<Longrightarrow> sorted_wrt Q xs \<Longrightarrow> sorted_wrt (\<lambda>a b. P a b \<and> Q a b) xs"
  by (induction xs) auto

lemma sorted_wrt_cases:
  assumes "sorted_wrt R xs" "a \<in> set xs" "b \<in> set xs"
  shows "a = b \<or> R a b \<or> R b a"
proof -
  from assms(2,3) obtain i j where ij: "i < length xs" "xs ! i = a" "j < length xs" "xs ! j = b"
    by (auto simp: in_set_conv_nth)
  consider "i = j" | "i < j" | "j < i" by linarith
  then show ?thesis
  proof cases
    case 1
    with ij show ?thesis by simp
  next
    case 2
    from sorted_wrt_nth_less[OF assms(1) 2 ij(3)] ij show ?thesis by simp
  next
    case 3
    from sorted_wrt_nth_less[OF assms(1) 3 ij(1)] ij show ?thesis by simp
  qed
qed

lemma segments_ordered:
  assumes "e1 \<in> set (textPositionMap (buildTextNodeMap doc))"
    and "e2 \<in> set (textPositionMap (buildTextNodeMap doc))"
    and "startOffset e1 \<le> p" "p < endOffset e1" "startOffset e2 \<le> q" "q < endOffset e2" "p \<le> q"
  shows "e1 = e2 \<or> node e1 < node e2"
proof -
  let ?pm = "textPositionMap (buildTextNodeMap doc)"
  have "sorted_wrt (\<lambda>a b. endOffset a < startOffset b) ?pm"
    using positionMap_contiguous by (rule contiguous_sorted_offsets)
  moreover have "sorted_wrt (\<lambda>a b. node a < node b) ?pm"
    using map_node_sorted[of doc] by (simp only: buildTextNodeMap_simps sorted_wrt_map)
  ultimately have "sorted_wrt (\<lambda>a b. endOffset a < startOffset b \<and> node a < node b) ?pm"
    by (rule sorted_wrt_conj)
  from sorted_wrt_cases[OF this assms(1,2)] assms(3-7) show ?thesis by auto
qed

(* normal forms are fixed points *)

lemma contiguous_position:
  "contiguousFrom c es \<Longrightarrow> p < length (join [SP] (map normalizedText es)) \<Longrightarrow>
     (\<exists>e \<in> set es. startOffset e \<le> c + p \<and> c + p < endOffset e) \<or>
     join [SP] (map normalizedText es) ! p = SP"
proof (induction es arbitrary: c p)
  case Nil
  then show ?case by simp
next
  case (Cons a es)
  from Cons.prems(1) have a: "startOffset a = c" "endOffset a = c + length (normalizedText a)"
    and c: "contiguousFrom (c + length (normalizedText a) + 1) es" by auto
  let ?n = "length (normalizedText a)"
  consider "p < ?n" | "p = ?n" | "?n < p" by linarith
  then show ?case
  proof cases
    case 1
    with a show ?thesis by auto
  next
    case 2
    with Cons.prems(2) have "es \<noteq> []" by (auto simp: join_Cons split: if_splits)
    with 2 show ?thesis by (simp add: join_Cons nth_append)
  next
    case 3
    with Cons.prems(2) have es: "es \<noteq> []" by (auto simp: join_Cons split: if_splits)
    from 3 have le: "length (normalizedText a @ [SP]) \<le> p" by simp
    have j: "join [SP] (map normalizedText (a # es)) = (normalizedText a @ [SP]) @ join [SP] (map normalizedText es)"
      using es by (simp add: join_Cons)
    have nth: "join [SP] (map normalizedText (a # es)) ! p
                 = join [SP] (map normalizedText es) ! (p - (?n + 1))"
      unfolding j using nth_append_shift[OF le, of "join [SP] (map normalizedText es)"] by simp
    from Cons.prems(2)[unfolded j] 3 have "p - (?n + 1) < length (join [SP] (map normalizedText es))"
      by simp
    from Cons.IH[OF c this] nth 3 show ?thesis by auto
  qed
qed

lemma join_structure:
  assumes "\<forall>x \<in> set xs. normalForm x \<and> x \<noteq> []"
  shows "plainSpaces (join [SP] xs) \<and> noWsPair (join [SP] xs) \<and>
         (xs \<noteq> [] \<longrightarrow> join [SP] xs \<noteq> [] \<and> hd (join [SP] xs) = hd (hd xs))"
  using assms
proof (induction xs)
  case Nil
  then show ?case by (simp add: plainSpaces_def)
next
  case (Cons x xs)
  then have x: "normalForm x" "x \<noteq> []" by auto
  show ?case
  proof (cases "xs = []")
    case True
    with x show ?thesis by (simp add: normalForm_def)
  next
    case False
    from Cons have ih: "plainSpaces (join [SP] xs)" "noWsPair (join [SP] xs)"
      "join [SP] xs \<noteq> []" "hd (join [SP] xs) = hd (hd xs)" using False by auto
    from Cons.prems False have "normalForm (hd xs)" "hd xs \<noteq> []" by (cases xs; simp)+
    then have hn: "\<not> isWhiteSpace (hd (join [SP] xs))" using ih(4) by (simp add: normalForm_def)
    have j: "join [SP] (x # xs) = x @ [SP] @ join [SP] xs" using False by (simp add: join_Cons)
    have "plainSpaces (x @ [SP] @ join [SP] xs)"
      using x(1) ih(1) by (auto simp: plainSpaces_def normalForm_def)
    moreover have "noWsPair ([SP] @ join [SP] xs)"
      using ih(2,3) hn by (cases "join [SP] xs") auto
    then have "noWsPair (x @ [SP] @ join [SP] xs)"
      using x by (subst noWsPair_append) (auto simp: normalForm_def)
    ultimately show ?thesis using x(2) by (simp add: j)
  qed
qed

lemma full_structure:
  "plainSpaces (fullNormalizedText (buildTextNodeMap doc)) \<and>
   noWsPair (fullNormalizedText (buildTextNodeMap doc))"
proof -
  let ?pm = "textPositionMap (buildTextNodeMap doc)"
  have "\<forall>x \<in> set (map normalizedText ?pm). normalForm x \<and> x \<noteq> []"
  proof
    fix x assume "x \<in> set (map normalizedText ?pm)"
    then obtain e where e: "e \<in> set ?pm" "x = normalizedText e" by auto
    from positionMap_entry(2)[OF e(1)] e(2) have "normalForm x"
      by (simp add: normalForm_normalizeText)
    moreover from contiguous_bounds[OF positionMap_contiguous e(1)] e(2) have "x \<noteq> []" by auto
    ultimately show "normalForm x \<and> x \<noteq> []" ..
  qed
  from join_structure[OF this] show ?thesis by (simp add: buildTextNodeMap_simps)
qed

section \<open>Mapping offsets back\<close>

lemma denormalizeOffset_le: "denormalizeOffset text k \<le> length text"
  by (simp add: denormalizeOffset_def)

lemma findNodeLoop_None:
  "contiguousFrom c es \<Longrightarrow>
     (findNodeLoop doc es p c = None \<longleftrightarrow>
        (\<forall>e \<in> set es. \<not> (int (startOffset e) \<le> p \<and> p < int (endOffset e))))"
proof (induction es arbitrary: c)
  case Nil
  then show ?case by simp
next
  case (Cons a es)
  from Cons.prems have a: "startOffset a = c" "endOffset a = c + length (normalizedText a)"
    and c: "contiguousFrom (c + length (normalizedText a) + 1) es" by auto
  show ?case
  proof (cases "int c \<le> p \<and> p < int (c + length (normalizedText a))")
    case True
    with a show ?thesis by (simp add: Let_def)
  next
    case False
    with a Cons.IH[OF c] show ?thesis by (auto simp: Let_def)
  qed
qed

lemma findNodeLoop_Some:
  "contiguousFrom c es \<Longrightarrow> findNodeLoop doc es p c = Some loc \<Longrightarrow>
     \<exists>e \<in> set es. int (startOffset e) \<le> p \<and> p < int (endOffset e) \<and>
        locNode loc = node e \<and>
        locOffset loc = min (denormalizeOffset (textContent (doc ! node e)) (nat (p - int (startOffset e))))
                            (length (textContent (doc ! node e)))"
proof (induction es arbitrary: c)
  case Nil
  then show ?case by simp
next
  case (Cons a es)
  from Cons.prems have a: "startOffset a = c" "endOffset a = c + length (normalizedText a)"
    and c: "contiguousFrom (c + length (normalizedText a) + 1) es" by auto
  show ?case
  proof (cases "int c \<le> p \<and> p < int (c + length (normalizedText a))")
    case True
    with a Cons.prems(2) show ?thesis by (auto simp: Let_def)
  next
    case False
    with Cons.prems(2) have "findNodeLoop doc es p (c + length (normalizedText a) + 1) = Some loc"
      by (auto simp: Let_def split: if_splits)
    from Cons.IH[OF c this] show ?thesis by auto
  qed
qed

lemma advance_0 [simp]: "advance b cs 0 = 0"
  by (cases cs) simp_all

lemma denormalizeLoop_advance:
  "i \<le> length raw \<Longrightarrow> np \<le> n \<Longrightarrow>
     denormalizeLoop raw n i i np = i + advance (prevWs raw i) (drop i raw) (n - np)"
proof (induction "length raw - i" arbitrary: i np)
  case 0
  then have "i = length raw" by simp
  then show ?case by (subst denormalizeLoop.simps) simp
next
  case (Suc d)
  then have il: "i < length raw" by linarith
  show ?case
  proof (cases "np < n")
    case False
    with Suc.prems have "n - np = 0" by simp
    with False show ?thesis by (subst denormalizeLoop.simps) simp
  next
    case True
    let ?c = "raw ! i"
    let ?np = "if isWhiteSpace ?c then (if i = 0 \<or> \<not> isWhiteSpace (raw ! (i - 1)) then np + 1 else np)
               else np + 1"
    have d: "drop i raw = ?c # drop (Suc i) raw" using il by (simp add: Cons_nth_drop_Suc)
    have p: "prevWs raw (Suc i) = isWhiteSpace ?c" by (simp add: prevWs_def)
    have npn: "?np \<le> n" using True by auto
    have "denormalizeLoop raw n i i np = denormalizeLoop raw n (Suc i) (Suc i) ?np"
      using True il by (subst denormalizeLoop.simps) (simp add: Let_def)
    also have "\<dots> = Suc i + advance (prevWs raw (Suc i)) (drop (Suc i) raw) (n - ?np)"
      using Suc.hyps(2) il npn by (intro Suc.hyps(1)) simp_all
    also have "\<dots> = i + advance (prevWs raw i) (drop i raw) (n - np)"
      using True by (auto simp: d p prevWs_def)
    finally show ?thesis .
  qed
qed

lemma denormalizeOffset_advance: "denormalizeOffset raw n = min (advance False raw n) (length raw)"
  using denormalizeLoop_advance[of 0 raw 0 n] by (simp add: denormalizeOffset_def prevWs_def)

lemma advance_le: "advance b cs k \<le> length cs"
  by (induction cs arbitrary: b k) simp_all

lemma advance_lt: "k < unitsFrom b cs \<Longrightarrow> advance b cs k < length cs"
proof (induction cs arbitrary: b k)
  case Nil
  then show ?case by simp
next
  case (Cons c cs)
  show ?case
  proof (cases "k = 0")
    case True
    then show ?thesis by simp
  next
    case False
    show ?thesis
    proof (cases "isWhiteSpace c \<and> b")
      case True
      with Cons.prems have "k < unitsFrom True cs" by simp
      from Cons.IH[OF this] True False show ?thesis by simp
    next
      case f: False
      with Cons.prems False have "k - 1 < unitsFrom (isWhiteSpace c) cs" by auto
      from Cons.IH[OF this] f False show ?thesis by auto
    qed
  qed
qed

lemma unitsFrom_True: "unitsFrom True cs = unitsFrom False (dropWhile isWhiteSpace cs)"
  by (induction cs) simp_all

lemma length_collapse: "length (collapseWhiteSpace s) = unitsFrom False s"
  by (induction s rule: collapseWhiteSpace.induct) (simp_all add: unitsFrom_True)

lemma length_trim_le: "length (trim s) \<le> length s"
proof -
  have "length (dropWhile isWhiteSpace (rev (dropWhile isWhiteSpace s)))
          \<le> length (rev (dropWhile isWhiteSpace s))"
    by (rule length_dropWhile_le)
  also have "\<dots> \<le> length s" by (simp add: length_dropWhile_le)
  finally show ?thesis by (simp add: trim_def)
qed

lemma length_normalizeText_le: "length (normalizeText s) \<le> unitsFrom False s"
  unfolding normalizeText_def using length_trim_le[of "collapseWhiteSpace s"]
  by (simp add: length_collapse)

lemma denormalizeOffset_lt:
  "k < length (normalizeText text) \<Longrightarrow> denormalizeOffset text k < length text"
proof -
  assume "k < length (normalizeText text)"
  with length_normalizeText_le[of "text"] have "k < unitsFrom False text" by linarith
  from advance_lt[OF this] show ?thesis by (simp add: denormalizeOffset_advance)
qed

lemma advance_tidy:
  "noWsPair cs \<Longrightarrow> (b \<longrightarrow> cs = [] \<or> \<not> isWhiteSpace (hd cs)) \<Longrightarrow> advance b cs k = min k (length cs)"
proof (induction cs arbitrary: b k)
  case Nil
  then show ?case by simp
next
  case (Cons c cs)
  show ?case
  proof (cases "k = 0")
    case True
    then show ?thesis by simp
  next
    case False
    from Cons.prems(2) have nb: "\<not> (isWhiteSpace c \<and> b)" by auto
    have nc: "noWsPair cs" using Cons.prems(1) by (rule noWsPair_Cons)
    have "isWhiteSpace c \<longrightarrow> cs = [] \<or> \<not> isWhiteSpace (hd cs)"
      using Cons.prems(1) by (cases cs) auto
    from Cons.IH[OF nc this] nb False show ?thesis by auto
  qed
qed

lemma denormalizeOffset_normalForm:
  "normalForm raw \<Longrightarrow> denormalizeOffset raw k = min k (length raw)"
  by (simp add: denormalizeOffset_advance advance_tidy normalForm_def)

(* the concatenated text *)

section \<open>Exact search\<close>

lemma occursAt_0: "occursAt s t 0 \<longleftrightarrow> take (length t) s = t"
  unfolding occursAt_def by (metis add_0 drop0 length_take min.absorb2 min.cobounded1 nat_le_linear take_all)

lemma occursAt_Suc: "occursAt (c # cs) t (Suc k) \<longleftrightarrow> occursAt cs t k"
  by (simp add: occursAt_def)

lemma occursAt_drop: "from \<le> length s \<Longrightarrow> occursAt (drop from s) t j \<longleftrightarrow> occursAt s t (from + j)"
  by (auto simp: occursAt_def add.commute)

lemma occursAt_lt: "t \<noteq> [] \<Longrightarrow> occursAt s t k \<Longrightarrow> k < length s"
  by (cases t) (auto simp: occursAt_def)

lemma indexOfAux_None:
  "t \<noteq> [] \<Longrightarrow> indexOfAux t cs k = None \<longleftrightarrow> (\<forall>j. \<not> occursAt cs t j)"
proof (induction cs arbitrary: k)
  case Nil
  then show ?case by (auto simp: occursAt_def)
next
  case (Cons c cs)
  show ?case
  proof (cases "take (length t) (c # cs) = t")
    case True
    then have "occursAt (c # cs) t 0" by (simp only: occursAt_0)
    with True show ?thesis by auto
  next
    case False
    then have n0: "\<not> occursAt (c # cs) t 0" by (simp add: occursAt_0)
    have "(\<forall>j. \<not> occursAt (c # cs) t j) \<longleftrightarrow> (\<forall>j. \<not> occursAt cs t j)"
    proof
      assume h: "\<forall>j. \<not> occursAt (c # cs) t j"
      show "\<forall>j. \<not> occursAt cs t j"
      proof
        fix j from h have "\<not> occursAt (c # cs) t (Suc j)" by blast
        then show "\<not> occursAt cs t j" by (simp add: occursAt_Suc)
      qed
    next
      assume h: "\<forall>j. \<not> occursAt cs t j"
      show "\<forall>j. \<not> occursAt (c # cs) t j"
      proof
        fix j show "\<not> occursAt (c # cs) t j"
          using n0 h by (cases j) (simp_all add: occursAt_Suc)
      qed
    qed
    with False Cons.IH[OF Cons.prems, of "Suc k"] show ?thesis by simp
  qed
qed

lemma indexOfAux_Some:
  "t \<noteq> [] \<Longrightarrow> indexOfAux t cs k = Some r \<Longrightarrow>
     \<exists>j. r = k + j \<and> occursAt cs t j \<and> (\<forall>i < j. \<not> occursAt cs t i)"
proof (induction cs arbitrary: k)
  case Nil
  then show ?case by simp
next
  case (Cons c cs)
  show ?case
  proof (cases "take (length t) (c # cs) = t")
    case True
    then have "occursAt (c # cs) t 0" by (simp only: occursAt_0)
    moreover from True Cons.prems(2) have "r = k" by simp
    ultimately show ?thesis by auto
  next
    case False
    then have n0: "\<not> occursAt (c # cs) t 0" by (simp add: occursAt_0)
    from False Cons.prems(2) have "indexOfAux t cs (Suc k) = Some r" by simp
    from Cons.IH[OF Cons.prems(1) this] obtain j where
      j: "r = Suc k + j" "occursAt cs t j" "\<forall>i < j. \<not> occursAt cs t i" by blast
    have "\<forall>i < Suc j. \<not> occursAt (c # cs) t i"
    proof (intro allI impI)
      fix i assume "i < Suc j"
      then show "\<not> occursAt (c # cs) t i" using n0 j(3) by (cases i) (simp_all add: occursAt_Suc)
    qed
    moreover have "occursAt (c # cs) t (Suc j)" using j(2) by (simp only: occursAt_Suc)
    moreover have "r = k + Suc j" using j(1) by simp
    ultimately show ?thesis by blast
  qed
qed

lemma indexOf_None:
  assumes "t \<noteq> []" "from \<le> length s"
  shows "indexOf s t from = None \<longleftrightarrow> (\<forall>k \<ge> from. \<not> occursAt s t k)"
proof -
  have "indexOf s t from = None \<longleftrightarrow> (\<forall>j. \<not> occursAt (drop from s) t j)"
    using assms by (simp add: indexOf_def indexOfAux_None min_def)
  also have "\<dots> \<longleftrightarrow> (\<forall>j. \<not> occursAt s t (from + j))"
    using assms(2) by (simp add: occursAt_drop)
  also have "\<dots> \<longleftrightarrow> (\<forall>k \<ge> from. \<not> occursAt s t k)"
    by (metis le_add1 le_Suc_ex)
  finally show ?thesis .
qed

lemma indexOf_Some:
  assumes "t \<noteq> []" "from \<le> length s" "indexOf s t from = Some r"
  shows "from \<le> r" "occursAt s t r" "\<forall>k. from \<le> k \<and> k < r \<longrightarrow> \<not> occursAt s t k"
proof -
  from assms have "indexOfAux t (drop from s) from = Some r" by (simp add: indexOf_def min_def)
  from indexOfAux_Some[OF assms(1) this] obtain j where
    j: "r = from + j" "occursAt (drop from s) t j" "\<forall>i < j. \<not> occursAt (drop from s) t i" by blast
  from j(1) show "from \<le> r" by simp
  from j(1,2) assms(2) show "occursAt s t r" by (simp add: occursAt_drop)
  show "\<forall>k. from \<le> k \<and> k < r \<longrightarrow> \<not> occursAt s t k"
  proof (intro allI impI)
    fix k assume k: "from \<le> k \<and> k < r"
    then have "k - from < j" using j(1) by linarith
    with j(3) have "\<not> occursAt (drop from s) t (k - from)" by blast
    with assms(2) k show "\<not> occursAt s t k" by (simp add: occursAt_drop)
  qed
qed

lemma indexOf_beyond: "t \<noteq> [] \<Longrightarrow> length s \<le> from \<Longrightarrow> indexOf s t from = None"
  by (simp add: indexOf_def)

lemma filter_upt_none:
  "\<forall>k. a \<le> k \<and> k < b \<longrightarrow> \<not> P k \<Longrightarrow> filter P [a..<b] = []"
  by (simp add: filter_empty_conv)

lemma filter_upt_first:
  assumes "a \<le> r" "r < b" "P r" "\<forall>k. a \<le> k \<and> k < r \<longrightarrow> \<not> P k"
  shows "filter P [a..<b] = r # filter P [Suc r..<b]"
proof -
  have "[a..<b] = [a..<r] @ r # [Suc r..<b]"
    using assms(1,2) by (metis le_Suc_ex less_imp_le_nat upt_add_eq_append upt_conv_Cons)
  moreover have "filter P [a..<r] = []" using assms(4) by (simp add: filter_empty_conv)
  ultimately show ?thesis using assms(3) by simp
qed

lemma occurrencesFrom_unfold:
  assumes "t \<noteq> []"
  shows "occurrencesFrom s t from =
           (case indexOf s t from of None \<Rightarrow> [] | Some r \<Rightarrow> r # occurrencesFrom s t (r + 1))"
proof (cases "from \<le> length s")
  case False
  then show ?thesis using assms by (simp add: occurrencesFrom_def indexOf_beyond)
next
  case True
  show ?thesis
  proof (cases "indexOf s t from")
    case None
    with indexOf_None[OF assms True] have "\<forall>k \<ge> from. \<not> occursAt s t k" by simp
    then have "filter (occursAt s t) [from..<length s] = []" by (simp add: filter_empty_conv)
    with None show ?thesis by (simp add: occurrencesFrom_def)
  next
    case (Some r)
    note io = indexOf_Some[OF assms True Some]
    from occursAt_lt[OF assms io(2)] have "r < length s" .
    from filter_upt_first[of "from" r "length s" "occursAt s t", OF io(1) this io(2) io(3)]
    show ?thesis using Some by (simp add: occurrencesFrom_def)
  qed
qed

lemma searchLoop_closed:
  assumes "t \<noteq> []"
  shows "searchLoop m t from acc =
           Some (acc @ rangesAt m (length t) (occurrencesFrom (fullNormalizedText m) t from))"
proof (induction "length (fullNormalizedText m) - from" arbitrary: "from" acc rule: less_induct)
  case less
  let ?s = "fullNormalizedText m"
  show ?case
  proof (cases "indexOf ?s t from")
    case None
    then have "searchLoop m t from acc = Some acc" by (subst searchLoop.simps) simp
    moreover from None have "occurrencesFrom ?s t from = []"
      by (subst occurrencesFrom_unfold[OF assms]) simp
    ultimately show ?thesis by (simp add: rangesAt_def)
  next
    case (Some r)
    have f: "from \<le> length ?s"
    proof (rule ccontr)
      assume "\<not> from \<le> length ?s"
      then have "indexOf ?s t from = None" using assms by (simp add: indexOf_beyond)
      with Some show False by simp
    qed
    note io = indexOf_Some[OF assms f Some]
    from occursAt_lt[OF assms io(2)] have r: "r < length ?s" .
    let ?acc = "case createDOMRange m (int r) (int r + int (length t)) of
                  Some x \<Rightarrow> acc @ [x] | None \<Rightarrow> acc"
    have step: "searchLoop m t from acc = searchLoop m t (r + 1) ?acc"
      using Some by (subst searchLoop.simps) simp
    have "length ?s - (r + 1) < length ?s - from" using io(1) r by linarith
    from less[OF this] have
      "searchLoop m t (r + 1) ?acc = Some (?acc @ rangesAt m (length t) (occurrencesFrom ?s t (r + 1)))" .
    moreover have "occurrencesFrom ?s t from = r # occurrencesFrom ?s t (r + 1)"
      using Some by (subst occurrencesFrom_unfold[OF assms]) simp
    ultimately show ?thesis using step by (simp add: rangesAt_def split: option.splits)
  qed
qed

lemma findTextRanges_closed:
  "normalizeText targetText \<noteq> [] \<Longrightarrow>
   findTextRanges m targetText =
     Some (rangesAt m (length (normalizeText targetText))
            (allOccurrences (fullNormalizedText m) (normalizeText targetText)))"
  by (simp add: findTextRanges_def Let_def searchLoop_closed allOccurrences_def)

lemma occursAt_nth:
  "occursAt s t k \<Longrightarrow> i < length t \<Longrightarrow> s ! (k + i) = t ! i"
proof -
  assume o: "occursAt s t k" and i: "i < length t"
  from o have e: "take (length t) (drop k s) = t" and l: "k + length t \<le> length s"
    by (simp_all add: occursAt_def)
  have "t ! i = take (length t) (drop k s) ! i" by (simp only: e)
  also have "\<dots> = drop k s ! i" using i by simp
  also have "\<dots> = s ! (k + i)" using l i by simp
  finally show ?thesis by simp
qed

lemma nonws_in_segment:
  assumes "p < length (fullNormalizedText (buildTextNodeMap doc))"
    and "\<not> isWhiteSpace (fullNormalizedText (buildTextNodeMap doc) ! p)"
  shows "\<exists>e \<in> set (textPositionMap (buildTextNodeMap doc)). startOffset e \<le> p \<and> p < endOffset e"
proof -
  let ?m = "buildTextNodeMap doc"
  have c: "contiguousFrom 0 (textPositionMap ?m)" by (rule positionMap_contiguous)
  have full: "fullNormalizedText ?m = join [SP] (map normalizedText (textPositionMap ?m))"
    by (simp add: buildTextNodeMap_simps)
  from assms(1) have "p < length (join [SP] (map normalizedText (textPositionMap ?m)))"
    by (simp only: full)
  from contiguous_position[OF c this] assms(2) show ?thesis
    by (auto simp: full)
qed

lemma findNodeAtPosition_segment:
  assumes "e \<in> set (textPositionMap (buildTextNodeMap doc))" "startOffset e \<le> p" "p < endOffset e"
  shows "\<exists>e' \<in> set (textPositionMap (buildTextNodeMap doc)).
           startOffset e' \<le> p \<and> p < endOffset e' \<and>
           findNodeAtPosition (buildTextNodeMap doc) (int p) =
             Some \<lparr>locNode = node e',
                   locOffset = min (denormalizeOffset (textContent (doc ! node e')) (p - startOffset e'))
                                   (length (textContent (doc ! node e')))\<rparr>"
proof -
  let ?m = "buildTextNodeMap doc"
  have c: "contiguousFrom 0 (textPositionMap ?m)" by (rule positionMap_contiguous)
  have "findNodeLoop doc (textPositionMap ?m) (int p) 0 \<noteq> None"
    using findNodeLoop_None[OF c, of doc "int p"] assms by auto
  then obtain loc where loc: "findNodeLoop doc (textPositionMap ?m) (int p) 0 = Some loc" by auto
  from findNodeLoop_Some[OF c loc] obtain e' where e': "e' \<in> set (textPositionMap ?m)"
    "int (startOffset e') \<le> int p" "int p < int (endOffset e')" "locNode loc = node e'"
    "locOffset loc = min (denormalizeOffset (textContent (doc ! node e')) (nat (int p - int (startOffset e'))))
                         (length (textContent (doc ! node e')))" by blast
  have n: "nat (int p - int (startOffset e')) = p - startOffset e'" by simp
  have "loc = \<lparr>locNode = node e',
                locOffset = min (denormalizeOffset (textContent (doc ! node e')) (p - startOffset e'))
                                (length (textContent (doc ! node e')))\<rparr>"
    using e'(4,5) n by simp
  with loc e' show ?thesis by (auto simp: findNodeAtPosition_def buildTextNodeMap_simps)
qed

lemma createDOMRange_Some:
  assumes "e1 \<in> set (textPositionMap (buildTextNodeMap doc))" "startOffset e1 \<le> p" "p < endOffset e1"
    and "e2 \<in> set (textPositionMap (buildTextNodeMap doc))" "startOffset e2 \<le> q" "q < endOffset e2"
  shows "\<exists>r. createDOMRange (buildTextNodeMap doc) (int p) (int q + 1) = Some r"
proof -
  let ?m = "buildTextNodeMap doc"
  from findNodeAtPosition_segment[OF assms(1-3)] obtain l1 where
    l1: "findNodeAtPosition ?m (int p) = Some l1" "locOffset l1 \<le> length (textContent (doc ! locNode l1))"
    by auto
  from findNodeAtPosition_segment[OF assms(4-6)] obtain e' where e': "e' \<in> set (textPositionMap ?m)"
    "startOffset e' \<le> q" "q < endOffset e'"
    "findNodeAtPosition ?m (int q) =
             Some \<lparr>locNode = node e',
                   locOffset = min (denormalizeOffset (textContent (doc ! node e')) (q - startOffset e'))
                                   (length (textContent (doc ! node e')))\<rparr>" by blast
  let ?raw = "textContent (doc ! node e')"
  have c: "contiguousFrom 0 (textPositionMap ?m)" by (rule positionMap_contiguous)
  from contiguous_bounds[OF c e'(1)] have "endOffset e' = startOffset e' + length (normalizedText e')"
    by simp
  with e'(3) positionMap_entry(2)[OF e'(1)]
  have "q - startOffset e' < length (normalizeText ?raw)" using e'(2) by simp
  from denormalizeOffset_lt[OF this]
  have lt: "denormalizeOffset ?raw (q - startOffset e') < length ?raw" .
  obtain r0 where r0: "setStart doc (locNode l1) (locOffset l1) = Inr r0"
    using l1(2) by (simp add: setStart_def)
  have "\<exists>r. setEnd doc r0 (node e')
           (min (denormalizeOffset ?raw (q - startOffset e')) (length ?raw) + 1) = Inr r"
    using lt by (simp add: setEnd_def)
  then obtain r where r: "setEnd doc r0 (node e')
           (min (denormalizeOffset ?raw (q - startOffset e')) (length ?raw) + 1) = Inr r" by blast
  show ?thesis
    using l1(1) e'(4) r0 r by (simp add: createDOMRange_def buildTextNodeMap_simps)
qed

lemma normalForm_ends:
  "normalForm t \<Longrightarrow> t \<noteq> [] \<Longrightarrow> \<not> isWhiteSpace (t ! 0) \<and> \<not> isWhiteSpace (t ! (length t - 1))"
  by (simp add: normalForm_def hd_conv_nth last_conv_nth)

lemma createDOMRange_occurrence:
  assumes "normalForm t" "t \<noteq> []" "occursAt (fullNormalizedText (buildTextNodeMap doc)) t p"
  shows "\<exists>r. createDOMRange (buildTextNodeMap doc) (int p) (int p + int (length t)) = Some r"
proof -
  let ?m = "buildTextNodeMap doc"
  let ?full = "fullNormalizedText ?m"
  let ?q = "p + (length t - 1)"
  from assms(2) have len: "0 < length t" by simp
  from occursAt_nth[OF assms(3), of 0] len have p0: "?full ! p = t ! 0" by simp
  have q0: "?full ! ?q = t ! (length t - 1)"
    by (rule occursAt_nth[OF assms(3)]) (use len in simp)
  from assms(2) have len1: "1 \<le> length t" by (cases t) simp_all
  from assms(3) have "p + length t \<le> length ?full" by (simp add: occursAt_def)
  with len1 have pl: "p < length ?full" and ql: "?q < length ?full"
    by linarith+
  from normalForm_ends[OF assms(1,2)] p0 q0
  have "\<not> isWhiteSpace (?full ! p)" "\<not> isWhiteSpace (?full ! ?q)" by simp_all
  from nonws_in_segment[OF pl this(1)] nonws_in_segment[OF ql this(2)]
  obtain e1 e2 where "e1 \<in> set (textPositionMap ?m)" "startOffset e1 \<le> p" "p < endOffset e1"
    "e2 \<in> set (textPositionMap ?m)" "startOffset e2 \<le> ?q" "?q < endOffset e2" by blast
  from createDOMRange_Some[OF this] obtain r where
    "createDOMRange ?m (int p) (int ?q + 1) = Some r" by blast
  moreover have "int ?q + 1 = int p + int (length t)" using len1 by linarith
  ultimately show ?thesis by simp
qed

lemma rangesAt_all_Some:
  assumes "\<forall>k \<in> set ks. \<exists>r. createDOMRange m (int k) (int k + int len) = Some r"
  shows "length (rangesAt m len ks) = length ks \<and>
         (\<forall>j < length ks. createDOMRange m (int (ks ! j)) (int (ks ! j) + int len)
                             = Some (rangesAt m len ks ! j))"
  using assms
proof (induction ks)
  case Nil
  then show ?case by (simp add: rangesAt_def)
next
  case (Cons k ks)
  then obtain r where r: "createDOMRange m (int k) (int k + int len) = Some r" by auto
  then have u: "rangesAt m len (k # ks) = r # rangesAt m len ks" by (simp add: rangesAt_def)
  from Cons have ih: "length (rangesAt m len ks) = length ks"
    "\<forall>j < length ks. createDOMRange m (int (ks ! j)) (int (ks ! j) + int len)
                             = Some (rangesAt m len ks ! j)" by auto
  have "createDOMRange m (int ((k # ks) ! j)) (int ((k # ks) ! j) + int len)
          = Some (rangesAt m len (k # ks) ! j)" if "j < length (k # ks)" for j
    using that r ih(2) u by (cases j) simp_all
  with ih(1) u show ?case by simp
qed

lemma allOccurrences_spec:
  "t \<noteq> [] \<Longrightarrow> set (allOccurrences s t) = {k. occursAt s t k} \<and>
     sorted_wrt (<) (allOccurrences s t)"
  by (auto simp: allOccurrences_def occurrencesFrom_def occursAt_lt sorted_wrt_filter
           strict_sorted_iff[symmetric])

lemma occursAt_split: "occursAt s t k \<Longrightarrow> \<exists>ps ss. s = ps @ t @ ss \<and> length ps = k"
proof -
  assume o: "occursAt s t k"
  have "s = take k s @ take (length t) (drop k s) @ drop (length t) (drop k s)"
    by (metis append_take_drop_id)
  with o have "s = take k s @ t @ drop (length t) (drop k s)" by (simp add: occursAt_def)
  moreover from o have "length (take k s) = k" by (simp add: occursAt_def)
  ultimately show ?thesis by blast
qed

lemma occursAt_append: "occursAt (ps @ t @ ss) t (length ps)"
  by (simp add: occursAt_def)

lemma plainSpaces_append: "plainSpaces (xs @ ys) \<longleftrightarrow> plainSpaces xs \<and> plainSpaces ys"
  by (auto simp: plainSpaces_def)

lemma occursAt_structure:
  assumes "occursAt s t k" "plainSpaces s" "noWsPair s"
  shows "plainSpaces t" "noWsPair t"
proof -
  from occursAt_split[OF assms(1)] obtain ps ss where s: "s = ps @ t @ ss" by blast
  from assms(2) s show "plainSpaces t" by (simp add: plainSpaces_append)
  from assms(3) s show "noWsPair t" by (simp add: noWsPair_append)
qed

lemma trim_occurs: "\<exists>i. occursAt s (trim s) i"
proof -
  let ?d = "dropWhile isWhiteSpace s"
  have 1: "s = takeWhile isWhiteSpace s @ ?d" by simp
  have "rev ?d = takeWhile isWhiteSpace (rev ?d) @ dropWhile isWhiteSpace (rev ?d)" by simp
  then have "rev (rev ?d) = rev (takeWhile isWhiteSpace (rev ?d) @ dropWhile isWhiteSpace (rev ?d))"
    by (rule arg_cong)
  then have 2: "?d = trim s @ rev (takeWhile isWhiteSpace (rev ?d))"
    by (simp only: rev_rev_ident rev_append trim_def)
  from 1 2 have "s = takeWhile isWhiteSpace s @ trim s @ rev (takeWhile isWhiteSpace (rev ?d))"
    by metis
  then show ?thesis using occursAt_append by metis
qed

lemma occursAt_trans:
  "occursAt s t k \<Longrightarrow> occursAt t u i \<Longrightarrow> occursAt s u (k + i)"
proof -
  assume st: "occursAt s t k" and tu: "occursAt t u i"
  from occursAt_split[OF st] obtain ps ss where s: "s = ps @ t @ ss" "length ps = k" by blast
  from occursAt_split[OF tu] obtain pt st' where t: "t = pt @ u @ st'" "length pt = i" by blast
  from s t have "s = (ps @ pt) @ u @ (st' @ ss)" "length (ps @ pt) = k + i" by simp_all
  then show ?thesis using occursAt_append by metis
qed

lemma normalized_substring_occurs:
  assumes "occursAt (fullNormalizedText (buildTextNodeMap doc)) S k"
  shows "\<exists>p. occursAt (fullNormalizedText (buildTextNodeMap doc)) (normalizeText S) p"
proof -
  from full_structure[of doc] occursAt_structure[OF assms]
  have "plainSpaces S" "noWsPair S" by simp_all
  then have "normalizeText S = trim S" by (simp add: normalizeText_def collapse_fixed)
  with trim_occurs[of S] obtain i where "occursAt S (normalizeText S) i" by auto
  from occursAt_trans[OF assms this] show ?thesis by blast
qed

lemma segment_unique:
  assumes "e1 \<in> set (textPositionMap (buildTextNodeMap doc))"
    and "e2 \<in> set (textPositionMap (buildTextNodeMap doc))"
    and "startOffset e1 \<le> p" "p < endOffset e1" "startOffset e2 \<le> p" "p < endOffset e2"
  shows "e1 = e2"
  using segments_ordered[OF assms(1,2) assms(3-6)] segments_ordered[OF assms(2,1) assms(5,6) assms(3,4)]
  by auto

lemma findNodeAtPosition_in_segment:
  assumes "e \<in> set (textPositionMap (buildTextNodeMap doc))" "startOffset e \<le> p" "p < endOffset e"
  shows "findNodeAtPosition (buildTextNodeMap doc) (int p) =
             Some \<lparr>locNode = node e,
                   locOffset = min (denormalizeOffset (textContent (doc ! node e)) (p - startOffset e))
                                   (length (textContent (doc ! node e)))\<rparr>"
proof -
  from findNodeAtPosition_segment[OF assms] obtain e' where
    e': "e' \<in> set (textPositionMap (buildTextNodeMap doc))" "startOffset e' \<le> p" "p < endOffset e'"
    "findNodeAtPosition (buildTextNodeMap doc) (int p) =
             Some \<lparr>locNode = node e',
                   locOffset = min (denormalizeOffset (textContent (doc ! node e')) (p - startOffset e'))
                                   (length (textContent (doc ! node e')))\<rparr>" by blast
  from segment_unique[OF assms(1) e'(1) assms(2,3) e'(2,3)] e'(4) show ?thesis by simp
qed

lemma slice_slice:
  "a \<le> b \<Longrightarrow> b \<le> j - i \<Longrightarrow> slice (slice xs i j) a b = slice xs (i + a) (i + b)"
  by (simp add: slice_def take_drop min_def add.commute)

lemma occursAt_slice: "occursAt s t p \<Longrightarrow> slice s p (p + length t) = t"
  by (simp add: occursAt_def slice_def)

lemma createDOMRange_single_segment:
  assumes e: "e \<in> set (textPositionMap (buildTextNodeMap doc))"
    and p: "startOffset e \<le> p" "p \<le> q" "q < endOffset e"
    and nf: "normalForm (textContent (doc ! node e))"
  shows "createDOMRange (buildTextNodeMap doc) (int p) (int q + 1) =
           Some \<lparr>rangeObj = \<lparr>startContainer = node e, rangeStartOffset = p - startOffset e,
                              endContainer = node e, rangeEndOffset = q - startOffset e + 1\<rparr>,
                  originalText = slice (fullNormalizedText (buildTextNodeMap doc)) p (q + 1),
                  rangeNormalizedText =
                    normalizeText (slice (fullNormalizedText (buildTextNodeMap doc)) p (q + 1))\<rparr>"
proof -
  let ?m = "buildTextNodeMap doc"
  let ?raw = "textContent (doc ! node e)"
  let ?s = "startOffset e"
  have c: "contiguousFrom 0 (textPositionMap ?m)" by (rule positionMap_contiguous)
  from positionMap_entry(2)[OF e] nf have raw: "normalizedText e = ?raw"
    by (simp add: normalizeText_fixed)
  from contiguous_bounds[OF c e] raw have len: "endOffset e = ?s + length ?raw" by simp
  from p len have pl: "p - ?s < length ?raw" and ql: "q - ?s < length ?raw" by linarith+
  have l1: "findNodeAtPosition ?m (int p) = Some \<lparr>locNode = node e, locOffset = p - ?s\<rparr>"
    using findNodeAtPosition_in_segment[OF e, of p] p pl
    by (simp add: denormalizeOffset_normalForm[OF nf])
  have l2: "findNodeAtPosition ?m (int q) = Some \<lparr>locNode = node e, locOffset = q - ?s\<rparr>"
    using findNodeAtPosition_in_segment[OF e, of q] p ql
    by (simp add: denormalizeOffset_normalForm[OF nf])
  let ?r = "\<lparr>startContainer = node e, rangeStartOffset = p - ?s,
             endContainer = node e, rangeEndOffset = q - ?s + 1\<rparr>"
  have s1: "setStart doc (node e) (p - ?s) =
              Inr \<lparr>startContainer = node e, rangeStartOffset = p - ?s,
                   endContainer = node e, rangeEndOffset = p - ?s\<rparr>"
    using pl by (simp add: setStart_def)
  have s2: "setEnd doc \<lparr>startContainer = node e, rangeStartOffset = p - ?s,
                        endContainer = node e, rangeEndOffset = p - ?s\<rparr> (node e) (q - ?s + 1)
              = Inr ?r"
    using ql p by (simp add: setEnd_def)
  have "rangeToString doc ?r = slice ?raw (p - ?s) (q - ?s + 1)"
    by (simp add: rangeToString_def)
  also have "?raw = slice (fullNormalizedText ?m) ?s (endOffset e)"
    using contiguous_slice[OF c e] raw by (simp add: buildTextNodeMap_simps)
  also have "slice (slice (fullNormalizedText ?m) ?s (endOffset e)) (p - ?s) (q - ?s + 1)
               = slice (fullNormalizedText ?m) (?s + (p - ?s)) (?s + (q - ?s + 1))"
    using p len by (intro slice_slice) linarith+
  also have "\<dots> = slice (fullNormalizedText ?m) p (q + 1)" using p by simp
  finally have ts: "rangeToString doc ?r = slice (fullNormalizedText ?m) p (q + 1)" .
  show ?thesis
    using l1 l2 s1 s2 ts by (simp add: createDOMRange_def buildTextNodeMap_simps)
qed

lemma createDOMRange_two_segments:
  assumes "e1 \<in> set (textPositionMap (buildTextNodeMap doc))" "startOffset e1 \<le> p" "p < endOffset e1"
    and "e2 \<in> set (textPositionMap (buildTextNodeMap doc))" "startOffset e2 \<le> q" "q < endOffset e2"
    and "node e1 < node e2"
    and "createDOMRange (buildTextNodeMap doc) (int p) (int q + 1) = Some r"
  shows "startContainer (rangeObj r) = node e1 \<and> endContainer (rangeObj r) = node e2"
  using assms(8) assms(7)
  by (auto simp: createDOMRange_def findNodeAtPosition_in_segment[OF assms(1-3)]
        findNodeAtPosition_in_segment[OF assms(4-6)] setStart_def setEnd_def buildTextNodeMap_simps
        split: if_splits)

lemma createDOMRange_one_segment:
  assumes "e \<in> set (textPositionMap (buildTextNodeMap doc))" "startOffset e \<le> p" "p < endOffset e"
    and "startOffset e \<le> q" "q < endOffset e"
    and "createDOMRange (buildTextNodeMap doc) (int p) (int q + 1) = Some r"
  shows "startContainer (rangeObj r) = node e \<and> endContainer (rangeObj r) = node e"
  using assms(6)
  by (auto simp: createDOMRange_def findNodeAtPosition_in_segment[OF assms(1-3)]
        findNodeAtPosition_in_segment[OF assms(1,4,5)] setStart_def setEnd_def buildTextNodeMap_simps
        split: if_splits)

lemma createDOMRange_occurrence_text:
  assumes t: "normalForm t" "t \<noteq> []"
    and o: "occursAt (fullNormalizedText (buildTextNodeMap doc)) t p"
    and r: "createDOMRange (buildTextNodeMap doc) (int p) (int p + int (length t)) = Some r"
    and same: "startContainer (rangeObj r) = endContainer (rangeObj r)"
    and nf: "normalizeText (textContent (doc ! startContainer (rangeObj r)))
               = textContent (doc ! startContainer (rangeObj r))"
  shows "originalText r = t \<and> rangeNormalizedText r = t"
proof -
  let ?m = "buildTextNodeMap doc"
  let ?full = "fullNormalizedText ?m"
  let ?q = "p + (length t - 1)"
  from t(2) have len1: "1 \<le> length t" by (cases t) simp_all
  have q1: "int ?q + 1 = int p + int (length t)" using len1 by linarith
  from occursAt_nth[OF o, of 0] t(2) have p0: "?full ! p = t ! 0" by simp
  have q0: "?full ! ?q = t ! (length t - 1)"
    by (rule occursAt_nth[OF o]) (use len1 in simp)
  from o have "p + length t \<le> length ?full" by (simp add: occursAt_def)
  with len1 have pl: "p < length ?full" and ql: "?q < length ?full" by linarith+
  from normalForm_ends[OF t] p0 q0
  have "\<not> isWhiteSpace (?full ! p)" "\<not> isWhiteSpace (?full ! ?q)" by simp_all
  from nonws_in_segment[OF pl this(1)] nonws_in_segment[OF ql this(2)]
  obtain e1 e2 where e1: "e1 \<in> set (textPositionMap ?m)" "startOffset e1 \<le> p" "p < endOffset e1"
    and e2: "e2 \<in> set (textPositionMap ?m)" "startOffset e2 \<le> ?q" "?q < endOffset e2" by blast
  from r q1 have r': "createDOMRange ?m (int p) (int ?q + 1) = Some r" by simp
  have pq: "p \<le> ?q" by simp
  from segments_ordered[OF e1(1) e2(1) e1(2,3) e2(2,3) pq]
  have eq: "e1 = e2"
  proof
    assume "node e1 < node e2"
    from createDOMRange_two_segments[OF e1 e2 this r'] this same show ?thesis by simp
  qed
  have cont: "startContainer (rangeObj r) = node e1"
    using createDOMRange_one_segment[OF e1 _ _ r'] e2(2,3) eq by blast
  from nf cont have "normalizeText (textContent (doc ! node e1)) = textContent (doc ! node e1)"
    by simp
  with normalForm_normalizeText[of "textContent (doc ! node e1)"]
  have nf1: "normalForm (textContent (doc ! node e1))" by simp
  from createDOMRange_single_segment[OF e1(1) e1(2) pq _ nf1] e2(3) eq r'
  have "originalText r = slice ?full p (?q + 1)"
       "rangeNormalizedText r = normalizeText (slice ?full p (?q + 1))" by auto
  moreover have "?q + 1 = p + length t" using len1 by linarith
  then have "slice ?full p (?q + 1) = t"
    using occursAt_slice[OF o] by (simp only:)
  ultimately show ?thesis using normalizeText_fixed[OF t(1)] by simp
qed

lemma rangesAt_mem:
  "r \<in> set (rangesAt m len ks) \<Longrightarrow>
     \<exists>k \<in> set ks. createDOMRange m (int k) (int k + int len) = Some r"
  by (auto simp: rangesAt_def split: option.splits)

section \<open>Fuzzy search\<close>

lemma fuzzyLoop_closed:
  "fuzzyLoop lc m nt th w fw i ranges
     = ranges @ concat (map (fuzzyAt lc m nt th w fw) [i..<Suc (length fw) - w])"
proof (induction "Suc (length fw) - w - i" arbitrary: i ranges)
  case 0
  then have "\<not> int i \<le> int (length fw) - int w" by linarith
  moreover from 0 have "[i..<Suc (length fw) - w] = []" by simp
  ultimately show ?case by (subst fuzzyLoop.simps) simp
next
  case (Suc n)
  then have c: "int i \<le> int (length fw) - int w" and lt: "i < Suc (length fw) - w" by linarith+
  let ?r = "ranges @ fuzzyAt lc m nt th w fw i"
  have "fuzzyLoop lc m nt th w fw i ranges = fuzzyLoop lc m nt th w fw (i + 1) ?r"
    using c by (subst fuzzyLoop.simps) (auto simp: Let_def fuzzyAt_def split: option.splits)
  also have "\<dots> = ?r @ concat (map (fuzzyAt lc m nt th w fw) [i + 1..<Suc (length fw) - w])"
    using Suc.hyps(2) by (intro Suc.hyps(1)) linarith
  also have "\<dots> = ranges @ concat (map (fuzzyAt lc m nt th w fw) [i..<Suc (length fw) - w])"
    using lt by (simp add: upt_conv_Cons)
  finally show ?case .
qed

lemma findFuzzyTextRanges_closed:
  "findFuzzyTextRanges lc m target thresholdArg =
     (if length (normalizeText target) < 10 \<or> length (splitSpace (normalizeText target)) < 3 then []
      else concat (map (fuzzyAt lc m (normalizeText target)
                          (case thresholdArg of None \<Rightarrow> 8 / 10 | Some t \<Rightarrow> t)
                          (min (length (splitSpace (normalizeText target)) * 2) 20)
                          (splitSpace (fullNormalizedText m)))
                     [0..<Suc (length (splitSpace (fullNormalizedText m)))
                            - min (length (splitSpace (normalizeText target)) * 2) 20]))"
  by (simp add: findFuzzyTextRanges_def Let_def fuzzyLoop_closed)

lemma window_length: "i < Suc (length fw) - w \<Longrightarrow> length (slice fw i (i + w)) = w"
  by (simp add: slice_def)

lemma fuzzyAt_mem:
  "r \<in> set (fuzzyAt lc m nt th w fw i) \<longleftrightarrow>
     th \<le> calculateSimilarity lc nt (join [SP] (slice fw i (i + w))) \<and>
     createDOMRange m (int (length (join [SP] (slice fw 0 i))))
        (int (length (join [SP] (slice fw 0 i)) + length (join [SP] (slice fw i (i + w))))) = Some r"
proof (cases "th \<le> calculateSimilarity lc nt (join [SP] (slice fw i (i + w)))")
  case False
  then show ?thesis by (simp add: fuzzyAt_def)
next
  case True
  show ?thesis
  proof (cases "createDOMRange m (int (length (join [SP] (slice fw 0 i))))
        (int (length (join [SP] (slice fw 0 i)) + length (join [SP] (slice fw i (i + w)))))")
    case None
    with True show ?thesis unfolding fuzzyAt_def by simp
  next
    case (Some x)
    with True show ?thesis unfolding fuzzyAt_def by auto
  qed
qed

section \<open>The highlighter catches what the browser throws\<close>

lemma moveChildren_terminates:
  assumes "movesChildOut api"
  shows "\<exists>res. moveChildren api parent el d = Some res"
proof -
  from assms obtain count :: "'a \<Rightarrow> 'b \<Rightarrow> nat" where
    count: "\<And>d parent child el d'. firstChild api d el = Some child \<Longrightarrow>
              insertBefore api d parent child el = (Inr (), d') \<Longrightarrow> count d' el < count d el"
    unfolding movesChildOut_def by blast
  show ?thesis
  proof (induction "count d el" arbitrary: d rule: less_induct)
    case less
    show ?case
    proof (cases "firstChild api d el")
      case None
      then show ?thesis by (subst moveChildren.simps) simp
    next
      case (Some child)
      obtain res d' where r: "insertBefore api d parent child el = (res, d')" by (cases "insertBefore api d parent child el")
      show ?thesis
      proof (cases res)
        case (Inl e)
        with Some r show ?thesis by (subst moveChildren.simps) simp
      next
        case (Inr u)
        with r have r': "insertBefore api d parent child el = (Inr (), d')" by simp
        from less[OF count[OF Some r']] obtain res' where "moveChildren api parent el d' = Some res'"
          by blast
        with Some r' show ?thesis by (subst moveChildren.simps) simp
      qed
    qed
  qed
qed

lemma tryCatch_unit:
  "\<exists>d'. tryCatch (body :: (domException + unit) \<times> 'd) (\<lambda>error d'. (Inr (), d')) = (Inr (), d')"
  by (cases body; cases "fst body") (auto simp: tryCatch_def)

lemma unwrapHighlight_total:
  assumes "movesChildOut api"
  shows "\<exists>d'. unwrapHighlight api d highlight = Some (Inr (), d')"
proof -
  have "\<exists>body. unwrapBody api d highlight = Some body"
  proof (cases "parentNode api d (element highlight)")
    case None
    then show ?thesis by (simp add: unwrapBody_def)
  next
    case (Some parent)
    from moveChildren_terminates[OF assms] obtain moved where
      "moveChildren api parent (element highlight) d = Some moved" by blast
    with Some show ?thesis by (simp add: unwrapBody_def)
  qed
  then obtain body where "unwrapBody api d highlight = Some body" by blast
  with tryCatch_unit[of body] show ?thesis by (auto simp: unwrapHighlight_def)
qed

lemma forEachHighlight_total:
  assumes "movesChildOut api"
  shows "\<exists>d'. forEachHighlight api hs d = Some (Inr (), d')"
proof (induction hs arbitrary: d)
  case Nil
  then show ?case by simp
next
  case (Cons a hs)
  from unwrapHighlight_total[OF assms] obtain d1 where
    "unwrapHighlight api d a = Some (Inr (), d1)" by blast
  with Cons[of d1] show ?case by simp
qed

lemma clearHighlights_total:
  assumes "movesChildOut api"
  shows "\<exists>d'. clearHighlights api h =
           Some (Inr (h\<lparr>domState := d', highlightedElements := [],
                        tooltipManager := hideTooltip api (tooltipManager h)\<rparr>))"
proof -
  from forEachHighlight_total[OF assms] obtain d' where
    "forEachHighlight api (map snd (highlightedElements h)) (domState h) = Some (Inr (), d')" by blast
  then show ?thesis by (auto simp: clearHighlights_def)
qed

lemma createHighlightElementAlternative_caught:
  "\<exists>x d'. createHighlightElementAlternative api mode d r m hid = (Inr x, d')"
  unfolding createHighlightElementAlternative_def tryCatch_def
  by (cases "alternativeBody api mode d r m hid"; cases "fst (alternativeBody api mode d r m hid)") auto

lemma createHighlightElement_caught:
  "\<exists>x d'. createHighlightElement api mode d r m hid = (Inr x, d')"
proof (cases "primaryBody api mode d r m hid")
  case (Pair res d1)
  show ?thesis
  proof (cases res)
    case (Inl e)
    with Pair createHighlightElementAlternative_caught[of api mode d1 r m hid]
    show ?thesis by (auto simp: createHighlightElement_def tryCatch_def)
  next
    case (Inr x)
    with Pair show ?thesis by (simp add: createHighlightElement_def tryCatch_def)
  qed
qed

lemma set_mapSet: "set (mapSet k v kvs) \<subseteq> insert (k, v) (set kvs)"
  by (induction kvs) (auto split: if_splits)

lemma forEachRangeCallback_caught:
  "\<exists>h'. forEachRangeCallback api m index x h = Inr h' \<and>
         (\<forall>entry \<in> set (highlightedElements h').
            manipulation (snd entry) = m \<or> entry \<in> set (highlightedElements h))"
proof -
  let ?hid = "(index, snd x, dateNow api (domState h))"
  from createHighlightElement_caught[of api "currentMode h" "domState h" "rangeObj (fst x)" m ?hid]
  obtain v d' where
    c: "createHighlightElement api (currentMode h) (domState h) (rangeObj (fst x)) m ?hid = (Inr v, d')"
    by auto
  show ?thesis
  proof (cases v)
    case None
    with c show ?thesis by (simp add: forEachRangeCallback_def Let_def)
  next
    case (Some el)
    let ?info = "\<lparr>element = el, manipulation = m, highlightRange = rangeObj (fst x),
                  highlightId = ?hid\<rparr>"
    from Some c have "forEachRangeCallback api m index x h =
        Inr (h\<lparr>domState := d', highlightedElements := mapSet ?hid ?info (highlightedElements h)\<rparr>)"
      by (simp add: forEachRangeCallback_def Let_def)
    moreover have "\<forall>entry \<in> set (mapSet ?hid ?info (highlightedElements h)).
            manipulation (snd entry) = m \<or> entry \<in> set (highlightedElements h)"
      using set_mapSet[of ?hid ?info "highlightedElements h"] by auto
    ultimately show ?thesis by simp
  qed
qed

lemma forEachRange_caught:
  "\<exists>h'. forEachRange api m index xs h = Inr h' \<and>
         (\<forall>entry \<in> set (highlightedElements h').
            manipulation (snd entry) = m \<or> entry \<in> set (highlightedElements h))"
proof (induction xs arbitrary: h)
  case Nil
  then show ?case by simp
next
  case (Cons x xs)
  from forEachRangeCallback_caught[of api m index x h] obtain h1 where
    h1: "forEachRangeCallback api m index x h = Inr h1"
      "\<forall>entry \<in> set (highlightedElements h1).
            manipulation (snd entry) = m \<or> entry \<in> set (highlightedElements h)" by blast
  from Cons[of h1] obtain h2 where
    h2: "forEachRange api m index xs h1 = Inr h2"
      "\<forall>entry \<in> set (highlightedElements h2).
            manipulation (snd entry) = m \<or> entry \<in> set (highlightedElements h1)" by blast
  from h1 h2 show ?case by auto
qed

lemma findTextRanges_total: "\<exists>ranges. findTextRanges m target = Some ranges"
proof (cases "normalizeText target = []")
  case True
  then show ?thesis by (simp add: findTextRanges_def)
next
  case False
  from findTextRanges_closed[OF this] show ?thesis by blast
qed

lemma locateRanges_total: "\<exists>ranges. locateRanges api d target = Some ranges"
  using findTextRanges_total[of "buildTextNodeMap (textNodesOf (bodyTree api d))" target]
  by (auto simp: locateRanges_def Let_def)

lemma highlightManipulation_caught:
  "\<exists>h'. highlightManipulation api m index h = Some (Inr h') \<and>
         (\<forall>entry \<in> set (highlightedElements h').
            manipulation (snd entry) = m \<or> entry \<in> set (highlightedElements h))"
proof -
  from locateRanges_total[of api "domState h" "original_text m"] obtain ranges where
    "locateRanges api (domState h) (original_text m) = Some ranges" by auto
  with forEachRange_caught[of api m index "zip ranges [0..<length ranges]" h]
  show ?thesis by (auto simp: highlightManipulation_def)
qed






lemma forEachManipulation_total:
  "\<exists>h'. forEachManipulation api xs h = Some (Inr h')"
proof (induction xs arbitrary: h)
  case Nil
  then show ?case by simp
next
  case (Cons x xs)
  obtain m index where x: "x = (m, index)" by (cases x)
  from highlightManipulation_caught[of api m index h] obtain h1 where
    "highlightManipulation api m index h = Some (Inr h1)" by blast
  with Cons[of h1] x show ?case by simp
qed



text \<open>
  A second \<open>clearHighlights\<close> right after the first finds the map empty: it calls nothing
  that changes the document and only asks the tooltip manager to hide again.
\<close>

lemma clearHighlights_twice:
  assumes "clearHighlights api h = Some (Inr h1)"
  shows "clearHighlights api h1 =
           Some (Inr (h1\<lparr>tooltipManager := hideTooltip api (tooltipManager h1)\<rparr>))"
proof -
  from assms have "highlightedElements h1 = []"
    by (auto simp: clearHighlights_def split: option.splits sum.splits prod.splits)
  then show ?thesis by (simp add: clearHighlights_def)
qed

section \<open>The text of the page under the browser's calls\<close>

lemma textContentOf_plainTree: "textContentOf (plainTree n) = pageText n"
  by (induction n) (auto simp: comp_def cong: map_cong)

lemma concat_split_nth:
  "i < length xs \<Longrightarrow>
   concat (map f xs) = concat (map f (take i xs)) @ f (xs ! i) @ concat (map f (drop (Suc i) xs))"
  by (subst id_take_nth_drop[of i xs]) (simp_all del: append_take_drop_id)

lemma concat_update_nth:
  "i < length xs \<Longrightarrow>
   concat (map f (xs[i := y])) = concat (map f (take i xs)) @ f y @ concat (map f (drop (Suc i) xs))"
  by (simp add: upd_conv_take_nth_drop)

lemma concat_take_drop:
  "concat (map f (take k xs)) @ concat (map f (drop k xs)) = concat (map f xs)"
  by (metis append_take_drop_id concat_append map_append)

lemma cutRight_text:
  "cutRight p off n = Some (a, b) \<Longrightarrow> pageText a @ pageText b = pageText n"
proof (induction p arbitrary: n a b)
  case Nil
  then show ?case
    by (cases n) (auto split: if_splits simp: concat_take_drop)
next
  case (Cons i p)
  show ?case
  proof (cases n)
    case (PageText d)
    with Cons.prems show ?thesis by simp
  next
    case (PageElement mark tagName cls children)
    with Cons.prems obtain original clone where
      i: "i < length children"
      and c: "cutRight p off (children ! i) = Some (original, clone)"
      and a: "a = PageElement mark tagName cls (take i children @ [original])"
      and b: "b = PageElement None tagName cls (clone # drop (Suc i) children)"
      by (auto split: if_splits option.splits)
    from Cons.IH[OF c] have "pageText original @ pageText clone = pageText (children ! i)" .
    with i a b PageElement show ?thesis
      by (simp add: concat_split_nth[of i children])
  qed
qed

lemma cutLeft_text:
  "cutLeft p off n = Some (a, b) \<Longrightarrow> pageText a @ pageText b = pageText n"
proof (induction p arbitrary: n a b)
  case Nil
  then show ?case
    by (cases n) (auto split: if_splits simp: concat_take_drop)
next
  case (Cons i p)
  show ?case
  proof (cases n)
    case (PageText d)
    with Cons.prems show ?thesis by simp
  next
    case (PageElement mark tagName cls children)
    with Cons.prems obtain clone original where
      i: "i < length children"
      and c: "cutLeft p off (children ! i) = Some (clone, original)"
      and a: "a = PageElement None tagName cls (take i children @ [clone])"
      and b: "b = PageElement mark tagName cls (original # drop (Suc i) children)"
      by (auto split: if_splits option.splits)
    from Cons.IH[OF c] have "pageText clone @ pageText original = pageText (children ! i)" .
    with i a b PageElement show ?thesis
      by (simp add: concat_split_nth[of i children])
  qed
qed

lemma take_slice_drop:
  "a \<le> b \<Longrightarrow> b \<le> length xs \<Longrightarrow> take a xs @ slice xs a b @ drop b xs = xs"
proof -
  assume ab: "a \<le> b" and b: "b \<le> length xs"
  have "slice xs a b @ drop b xs = drop a xs"
  proof -
    have "drop b xs = drop (b - a) (drop a xs)" using ab by simp
    then show ?thesis unfolding slice_def by (metis append_take_drop_id)
  qed
  then show ?thesis by simp
qed

lemma textOfAll_slice:
  "a \<le> b \<Longrightarrow> b \<le> length xs \<Longrightarrow>
   textOfAll (take a xs) @ textOfAll (slice xs a b) @ textOfAll (drop b xs) = textOfAll xs"
proof -
  assume "a \<le> b" "b \<le> length xs"
  from take_slice_drop[OF this] have "textOfAll (take a xs @ slice xs a b @ drop b xs) = textOfAll xs"
    by simp
  then show ?thesis by simp
qed

lemma textOfAll_nth:
  "i < length xs \<Longrightarrow>
   textOfAll (take i xs) @ pageText (xs ! i) @ textOfAll (drop (Suc i) xs) = textOfAll xs"
  using concat_split_nth[of i xs pageText] by simp

lemma slice_Suc_drop:
  "i < b \<Longrightarrow> b \<le> length xs \<Longrightarrow>
   pageText (xs ! i) @ textOfAll (slice xs (Suc i) b) @ textOfAll (drop b xs) = textOfAll (drop i xs)"
proof -
  assume ib: "i < b" and b: "b \<le> length xs"
  have "drop i xs = xs ! i # drop (Suc i) xs" using ib b by (simp add: Cons_nth_drop_Suc)
  moreover have "slice xs (Suc i) b @ drop b xs = drop (Suc i) xs"
  proof -
    have "drop b xs = drop (b - Suc i) (drop (Suc i) xs)" using ib by simp
    then show ?thesis unfolding slice_def by (metis append_take_drop_id)
  qed
  then have "textOfAll (slice xs (Suc i) b) @ textOfAll (drop b xs) = textOfAll (drop (Suc i) xs)"
    by (metis concat_append map_append)
  ultimately show ?thesis by simp
qed

lemma slice_to_nth:
  "a \<le> j \<Longrightarrow> j < length xs \<Longrightarrow>
   textOfAll (slice xs a j) @ pageText (xs ! j) @ textOfAll (drop (Suc j) xs) = textOfAll (drop a xs)"
proof -
  assume aj: "a \<le> j" and j: "j < length xs"
  have "slice xs a j @ drop j xs = drop a xs"
  proof -
    have "drop j xs = drop (j - a) (drop a xs)" using aj by simp
    then show ?thesis unfolding slice_def by (metis append_take_drop_id)
  qed
  moreover have "drop j xs = xs ! j # drop (Suc j) xs" using j by (simp add: Cons_nth_drop_Suc)
  ultimately have "slice xs a j @ xs ! j # drop (Suc j) xs = drop a xs" by simp
  then have "textOfAll (slice xs a j @ xs ! j # drop (Suc j) xs) = textOfAll (drop a xs)" by simp
  then show ?thesis by simp
qed

lemma textOfAll_take_drop: "textOfAll (take k xs) @ textOfAll (drop k xs) = textOfAll xs"
  by (rule concat_take_drop)

lemma extractHere_insert:
  assumes "extractHere sp so ep eo n = Some (n', fragment, co)"
  shows "\<exists>n'' a b. insertAt [] co x n' = Some n'' \<and> pageText n' = a @ b
           \<and> pageText n'' = a @ pageText x @ b
           \<and> pageText n = a @ textOfAll fragment @ b"
proof (cases n)
  case (PageText d)
  with assms show ?thesis by (simp add: extractHere_def)
next
  case (PageElement mark tagName cls children)
  show ?thesis
  proof (cases sp)
    case Nil
    note sp = Nil
    show ?thesis
    proof (cases ep)
      case Nil
      with sp PageElement assms have
        ok: "so \<le> eo" "eo \<le> length children"
        and n': "n' = PageElement mark tagName cls (take so children @ drop eo children)"
        and f: "fragment = slice children so eo" and co: "co = so"
        by (auto simp: extractHere_def split: if_splits)
      let ?a = "textOfAll (take so children)" and ?b = "textOfAll (drop eo children)"
      have len: "so \<le> length (take so children @ drop eo children)" using ok by simp
      have tk: "take so (take so children @ drop eo children) = take so children"
        using ok by simp
      have dr: "drop so (take so children @ drop eo children) = drop eo children"
        using ok by simp
      have "insertAt [] co x n'
              = Some (PageElement mark tagName cls (take so children @ x # drop eo children))"
        using len tk dr by (simp add: n' co)
      moreover have "pageText n' = ?a @ ?b" by (simp add: n')
      moreover have "pageText (PageElement mark tagName cls (take so children @ x # drop eo children))
                       = ?a @ pageText x @ ?b" by simp
      moreover have "pageText n = ?a @ textOfAll fragment @ ?b"
        using textOfAll_slice[OF ok] by (simp add: PageElement f)
      ultimately show ?thesis by blast
    next
      case (Cons j q)
      with sp PageElement assms obtain clone original where
        ok: "so \<le> j" "j < length children"
        and c: "cutLeft q eo (children ! j) = Some (clone, original)"
        and n': "n' = PageElement mark tagName cls (take so children @ original # drop (Suc j) children)"
        and f: "fragment = slice children so j @ [clone]" and co: "co = so"
        by (auto simp: extractHere_def split: if_splits option.splits)
      let ?a = "textOfAll (take so children)"
      let ?b = "pageText original @ textOfAll (drop (Suc j) children)"
      have so: "so \<le> length children" using ok by simp
      have "insertAt [] co x n'
              = Some (PageElement mark tagName cls
                        (take so children @ x # original # drop (Suc j) children))"
        using so by (simp add: n' co)
      moreover have "pageText n' = ?a @ ?b" by (simp add: n')
      moreover have "pageText (PageElement mark tagName cls
                        (take so children @ x # original # drop (Suc j) children))
                       = ?a @ pageText x @ ?b" by simp
      moreover have "pageText n = ?a @ textOfAll fragment @ ?b"
      proof -
        have "textOfAll fragment @ ?b
                = textOfAll (slice children so j) @ pageText (children ! j)
                  @ textOfAll (drop (Suc j) children)"
          using cutLeft_text[OF c] by (simp add: f)
        also have "\<dots> = textOfAll (drop so children)" by (rule slice_to_nth[OF ok])
        finally have "?a @ textOfAll fragment @ ?b = ?a @ textOfAll (drop so children)" by simp
        also have "\<dots> = textOfAll children" by (rule textOfAll_take_drop)
        finally show ?thesis by (simp add: PageElement)
      qed
      ultimately show ?thesis by blast
    qed
  next
    case (Cons i p)
    note sp = Cons
    show ?thesis
    proof (cases ep)
      case Nil
      with sp PageElement assms obtain original clone where
        ok: "i < eo" "eo \<le> length children"
        and c: "cutRight p so (children ! i) = Some (original, clone)"
        and n': "n' = PageElement mark tagName cls (take i children @ original # drop eo children)"
        and f: "fragment = clone # slice children (Suc i) eo" and co: "co = Suc i"
        by (auto simp: extractHere_def split: if_splits option.splits)
      let ?a = "textOfAll (take i children) @ pageText original"
      let ?b = "textOfAll (drop eo children)"
      have i: "i < length children" using ok by simp
      have "insertAt [] co x n'
              = Some (PageElement mark tagName cls
                        (take i children @ original # x # drop eo children))"
        using i by (simp add: n' co)
      moreover have "pageText n' = ?a @ ?b" by (simp add: n')
      moreover have "pageText (PageElement mark tagName cls
                        (take i children @ original # x # drop eo children))
                       = ?a @ pageText x @ ?b" by simp
      moreover have "pageText n = ?a @ textOfAll fragment @ ?b"
      proof -
        have "pageText original @ textOfAll fragment @ ?b
                = pageText (children ! i) @ textOfAll (slice children (Suc i) eo) @ ?b"
          using cutRight_text[OF c] by (simp add: f)
        also have "\<dots> = textOfAll (drop i children)" by (rule slice_Suc_drop[OF ok])
        finally have "?a @ textOfAll fragment @ ?b
                        = textOfAll (take i children) @ textOfAll (drop i children)" by simp
        also have "\<dots> = textOfAll children" by (rule textOfAll_take_drop)
        finally show ?thesis by (simp add: PageElement)
      qed
      ultimately show ?thesis by blast
    next
      case (Cons j q)
      with sp PageElement assms obtain original1 clone1 clone2 original2 where
        ok: "i < j" "j < length children"
        and c1: "cutRight p so (children ! i) = Some (original1, clone1)"
        and c2: "cutLeft q eo (children ! j) = Some (clone2, original2)"
        and n': "n' = PageElement mark tagName cls
                        (take i children @ original1 # original2 # drop (Suc j) children)"
        and f: "fragment = clone1 # slice children (Suc i) j @ [clone2]" and co: "co = Suc i"
        by (auto simp: extractHere_def split: if_splits option.splits)
      let ?a = "textOfAll (take i children) @ pageText original1"
      let ?b = "pageText original2 @ textOfAll (drop (Suc j) children)"
      have i: "i < length children" using ok by simp
      have "insertAt [] co x n'
              = Some (PageElement mark tagName cls
                        (take i children @ original1 # x # original2 # drop (Suc j) children))"
        using i by (simp add: n' co)
      moreover have "pageText n' = ?a @ ?b" by (simp add: n')
      moreover have "pageText (PageElement mark tagName cls
                        (take i children @ original1 # x # original2 # drop (Suc j) children))
                       = ?a @ pageText x @ ?b" by simp
      moreover have "pageText n = ?a @ textOfAll fragment @ ?b"
      proof -
        have sj: "Suc i \<le> j" using ok by simp
        have "textOfAll (slice children (Suc i) j) @ pageText clone2 @ ?b
                = textOfAll (slice children (Suc i) j) @ pageText (children ! j)
                  @ textOfAll (drop (Suc j) children)"
          using cutLeft_text[OF c2] by simp
        also have "\<dots> = textOfAll (drop (Suc i) children)" by (rule slice_to_nth[OF sj ok(2)])
        finally have "pageText original1 @ textOfAll fragment @ ?b
                = pageText (children ! i) @ textOfAll (drop (Suc i) children)"
          using cutRight_text[OF c1] by (simp add: f)
        then have "?a @ textOfAll fragment @ ?b
                = textOfAll (take i children) @ pageText (children ! i)
                  @ textOfAll (drop (Suc i) children)" by simp
        also have "\<dots> = textOfAll children" by (rule textOfAll_nth[OF i])
        finally show ?thesis by (simp add: PageElement)
      qed
      ultimately show ?thesis by blast
    qed
  qed
qed

lemma extractHere_element:
  "extractHere sp so ep eo n = Some (n', fragment, co) \<Longrightarrow>
   \<exists>mark tagName cls children'. n' = PageElement mark tagName cls children'"
  by (cases n; cases sp; cases ep) (auto simp: extractHere_def split: if_splits option.splits)

lemma extractIn_element:
  "extractIn sp so ep eo n = Some (n', fragment, cp, co) \<Longrightarrow>
   \<exists>mark tagName cls children'. n' = PageElement mark tagName cls children'"
proof (cases "\<exists>i p j q. sp = i # p \<and> ep = j # q \<and> i = j")
  case True
  then obtain i p q where "sp = i # p" "ep = i # q" by auto
  moreover assume "extractIn sp so ep eo n = Some (n', fragment, cp, co)"
  ultimately show ?thesis
    by (cases n) (auto split: if_splits option.splits pageNode.splits)
next
  case False
  assume a: "extractIn sp so ep eo n = Some (n', fragment, cp, co)"
  from False have "extractIn sp so ep eo n =
     (case extractHere sp so ep eo n of
        Some (n', fragment, co) \<Rightarrow> Some (n', fragment, [], co)
      | None \<Rightarrow> None)"
    by (cases sp; cases ep) auto
  with a obtain co' where "extractHere sp so ep eo n = Some (n', fragment, co')"
    by (auto split: option.splits)
  then show ?thesis by (rule extractHere_element)
qed

lemma extractIn_insert:
  "extractIn sp so ep eo n = Some (n', fragment, cp, co) \<Longrightarrow>
   \<exists>n'' a b. insertAt cp co x n' = Some n'' \<and> pageText n' = a @ b
     \<and> pageText n'' = a @ pageText x @ b
     \<and> pageText n = a @ textOfAll fragment @ b"
proof (induction sp arbitrary: ep n n' fragment cp co)
  case Nil
  then obtain co' where
    "extractHere [] so ep eo n = Some (n', fragment, co')" "cp = []" "co = co'"
    by (auto split: option.splits)
  with extractHere_insert[of "[]" so ep eo n n' fragment co' x] show ?case by simp
next
  case (Cons i p)
  note oprems = Cons.prems and oIH = Cons.IH
  show ?case
  proof (cases ep)
    case Nil
    with oprems obtain co' where
      "extractHere (i # p) so [] eo n = Some (n', fragment, co')" "cp = []" "co = co'"
      by (auto split: option.splits)
    with extractHere_insert[of "i # p" so "[]" eo n n' fragment co' x] show ?thesis by simp
  next
    case (Cons j q)
    note ep = Cons
    show ?thesis
    proof (cases "i = j")
      case False
      with oprems ep obtain co' where
        "extractHere (i # p) so (j # q) eo n = Some (n', fragment, co')" "cp = []" "co = co'"
        by (auto split: option.splits)
      with extractHere_insert[of "i # p" so "j # q" eo n n' fragment co' x] show ?thesis by simp
    next
      case True
      with oprems ep obtain mark tagName cls children where
        n: "n = PageElement mark tagName cls children" and i: "i < length children"
        by (cases n) (auto split: if_splits)
      show ?thesis
      proof (cases "children ! i")
        case (PageText d)
        with True n i oprems ep have
          ok: "so \<le> eo" "eo \<le> length d" and pq: "p = []" "q = []"
          and n': "n' = PageElement mark tagName cls (children[i := PageText (take so d @ drop eo d)])"
          and f: "fragment = [PageText (slice d so eo)]" and c: "cp = [i]" "co = so"
          by (auto split: if_splits)
        let ?a = "textOfAll (take i children) @ take so d"
        let ?b = "drop eo d @ textOfAll (drop (Suc i) children)"
        have so: "so \<le> length d" using ok by simp
        have "insertAt cp co x n'
                = Some (PageElement mark tagName cls
                          (take i children @ PageText (take so d) # x # PageText (drop eo d)
                           # drop (Suc i) children))"
          using i so ok by (simp add: n' c)
        moreover have "pageText n' = ?a @ ?b"
          using i by (simp add: n' concat_update_nth)
        moreover have "pageText (PageElement mark tagName cls
                          (take i children @ PageText (take so d) # x # PageText (drop eo d)
                           # drop (Suc i) children)) = ?a @ pageText x @ ?b" by simp
        moreover have "pageText n = ?a @ textOfAll fragment @ ?b"
        proof -
          have "take so d @ slice d so eo @ drop eo d = d" by (rule take_slice_drop[OF ok])
          then have "?a @ textOfAll fragment @ ?b
                       = textOfAll (take i children) @ pageText (children ! i)
                         @ textOfAll (drop (Suc i) children)"
            by (simp add: f PageText)
          also have "\<dots> = textOfAll children" by (rule textOfAll_nth[OF i])
          finally show ?thesis by (simp add: n)
        qed
        ultimately show ?thesis by blast
      next
        case (PageElement mark' tagName' cls' children')
        with True n i oprems ep obtain child' cp' where
          r: "extractIn p so q eo (children ! i) = Some (child', fragment, cp', co)"
          and n': "n' = PageElement mark tagName cls (children[i := child'])"
          and c: "cp = i # cp'"
          by (auto split: if_splits option.splits)
        from oIH[OF r] obtain c'' a b where
          ins: "insertAt cp' co x child' = Some c''"
          and t1: "pageText child' = a @ b"
          and t2: "pageText c'' = a @ pageText x @ b"
          and t3: "pageText (children ! i) = a @ textOfAll fragment @ b"
          by blast
        from extractIn_element[OF r] obtain m2 t2' c2 ch2 where
          el: "child' = PageElement m2 t2' c2 ch2" by blast
        let ?a = "textOfAll (take i children) @ a"
        let ?b = "b @ textOfAll (drop (Suc i) children)"
        have "insertAt cp co x n'
                = Some (PageElement mark tagName cls (children[i := c'']))"
          using i ins el by (simp add: n' c)
        moreover have "pageText n' = ?a @ ?b"
          using i t1 by (simp add: n' concat_update_nth)
        moreover have "pageText (PageElement mark tagName cls (children[i := c''])) = ?a @ pageText x @ ?b"
          using i t2 by (simp add: concat_update_nth)
        moreover have "pageText n = ?a @ textOfAll fragment @ ?b"
        proof -
          have "?a @ textOfAll fragment @ ?b
                  = textOfAll (take i children) @ pageText (children ! i)
                    @ textOfAll (drop (Suc i) children)"
            using t3 by simp
          also have "\<dots> = textOfAll children" by (rule textOfAll_nth[OF i])
          finally show ?thesis by (simp add: n)
        qed
        ultimately show ?thesis by blast
      qed
    qed
  qed
qed

text \<open>The content taken out, put back at the collapsed range inside a new element.\<close>

lemma extract_then_insert:
  assumes "extractIn sp so ep eo n = Some (n', fragment, cp, co)"
    and "pageText x = textOfAll fragment"
  shows "\<exists>n''. insertAt cp co x n' = Some n'' \<and> pageText n'' = pageText n"
  using extractIn_insert[OF assms(1), of x] assms(2) by auto

lemma mergeText_text: "textOfAll (mergeText ns) = textOfAll ns"
proof (induction ns rule: mergeText.induct)
  case (3 d ns)
  then show ?case by (cases "mergeText ns") (auto split: pageNode.splits)
qed simp_all

lemma normalizeTree_text: "pageText (normalizeTree n) = pageText n"
proof (induction n)
  case (PageElement mark tagName cls children)
  have "textOfAll (map normalizeTree children) = textOfAll children"
    using PageElement by (induction children) auto
  then show ?case by (simp add: mergeText_text)
qed simp

lemma modifyAt_text:
  "nodeAtPage p n = Some m \<Longrightarrow> pageText (f m) = pageText m \<Longrightarrow>
   pageText (modifyAt p f n) = pageText n"
proof (induction p arbitrary: n)
  case Nil
  then show ?case by simp
next
  case (Cons i p)
  show ?case
  proof (cases n)
    case (PageText d)
    then show ?thesis by simp
  next
    case (PageElement mark tagName cls children)
    with Cons.prems have i: "i < length children" and at: "nodeAtPage p (children ! i) = Some m"
      by (auto split: if_splits)
    from Cons.IH[OF at Cons.prems(2)]
    have "pageText (modifyAt p f (children ! i)) = pageText (children ! i)" .
    with i PageElement show ?thesis
      by (simp add: concat_update_nth textOfAll_nth)
  qed
qed

lemma modifyAt_missing: "nodeAtPage p n = None \<Longrightarrow> modifyAt p f n = n"
proof (induction p arbitrary: n)
  case Nil
  then show ?case by simp
next
  case (Cons i p)
  then show ?case by (cases n) (auto split: if_splits)
qed

lemma modifyAt_text_all:
  "(\<And>m. pageText (f m) = pageText m) \<Longrightarrow> pageText (modifyAt p f n) = pageText n"
  by (cases "nodeAtPage p n") (simp_all add: modifyAt_missing modifyAt_text)

lemma liftFirstChild_text: "textOfAll (liftFirstChild i children) = textOfAll children"
proof (cases "i < length children")
  case False
  then show ?thesis by (simp add: liftFirstChild_def)
next
  case True
  show ?thesis
  proof (cases "children ! i")
    case (PageText d)
    with True show ?thesis by (simp add: liftFirstChild_def)
  next
    case (PageElement mark tagName cls xs)
    show ?thesis
    proof (cases xs)
      case Nil
      with True PageElement show ?thesis by (simp add: liftFirstChild_def)
    next
      case (Cons y ys)
      with True PageElement have
        "textOfAll (liftFirstChild i children)
           = textOfAll (take i children) @ pageText (children ! i) @ textOfAll (drop (Suc i) children)"
        by (simp add: liftFirstChild_def)
      with textOfAll_nth[OF True] show ?thesis by simp
    qed
  qed
qed

lemma onChildren_liftFirstChild_text:
  "pageText (onChildren (liftFirstChild i) m) = pageText m"
  by (cases m) (simp_all add: onChildren_def liftFirstChild_text)

lemma removeNth_text:
  "i < length children \<Longrightarrow> pageText (children ! i) = [] \<Longrightarrow>
   textOfAll (removeNth i children) = textOfAll children"
  using textOfAll_nth[of i children] by (simp add: removeNth_def)

lemma nodeAtPage_append:
  "nodeAtPage (p @ q) n = (case nodeAtPage p n of Some m \<Rightarrow> nodeAtPage q m | None \<Rightarrow> None)"
proof (induction p arbitrary: n)
  case Nil
  then show ?case by simp
next
  case (Cons i p)
  then show ?case by (cases n) auto
qed

lemma findSpan_found_aux:
  "findSpan k n = Some rp \<Longrightarrow>
     \<exists>tagName cls children. nodeAtPage rp n = Some (PageElement (Some k) tagName cls children)"
  "findSpanIn k i ns = Some rp \<Longrightarrow>
     \<exists>j p. rp = (i + j) # p \<and> j < length ns \<and> findSpan k (ns ! j) = Some p
       \<and> (\<forall>j' < j. findSpan k (ns ! j') = None)
       \<and> (\<exists>tagName cls children.
             nodeAtPage p (ns ! j) = Some (PageElement (Some k) tagName cls children))"
proof (induction k n and k i ns arbitrary: rp and rp rule: findSpan_findSpanIn.induct)
  case (1 k d)
  then show ?case by simp
next
  case (2 k mark tagName cls children)
  show ?case
  proof (cases "mark = Some k")
    case True
    with "2.prems" show ?thesis by simp
  next
    case False
    with "2.prems" have "findSpanIn k 0 children = Some rp" by simp
    from "2.IH"[OF False this] obtain j p where
      rp: "rp = j # p" and j: "j < length children"
      and at: "\<exists>tagName cls children'.
                 nodeAtPage p (children ! j) = Some (PageElement (Some k) tagName cls children')"
      by auto
    then show ?thesis by simp
  qed
next
  case (3 k i)
  then show ?case by simp
next
  case (4 k i n ns)
  show ?case
  proof (cases "findSpan k n")
    case None
    with "4.prems" have "findSpanIn k (Suc i) ns = Some rp" by simp
    from "4.IH"(2)[OF None this] obtain j p where
      a: "rp = (Suc i + j) # p" "j < length ns" "findSpan k (ns ! j) = Some p"
        "\<forall>j' < j. findSpan k (ns ! j') = None"
        "\<exists>tagName cls children.
           nodeAtPage p (ns ! j) = Some (PageElement (Some k) tagName cls children)"
      by auto
    have "\<forall>j' < Suc j. findSpan k ((n # ns) ! j') = None"
    proof (intro allI impI)
      fix j' assume "j' < Suc j"
      then show "findSpan k ((n # ns) ! j') = None"
        using None a(4) by (cases j') auto
    qed
    with a have "rp = (i + Suc j) # p \<and> Suc j < length (n # ns)
        \<and> findSpan k ((n # ns) ! Suc j) = Some p
        \<and> (\<forall>j' < Suc j. findSpan k ((n # ns) ! j') = None)
        \<and> (\<exists>tagName cls children.
             nodeAtPage p ((n # ns) ! Suc j) = Some (PageElement (Some k) tagName cls children))"
      by simp
    then show ?thesis by blast
  next
    case (Some p)
    with "4.prems" have rp: "rp = i # p" by simp
    from "4.IH"(1)[OF Some] have
      "\<exists>tagName cls children. nodeAtPage p n = Some (PageElement (Some k) tagName cls children)" .
    with rp Some have "rp = (i + 0) # p \<and> 0 < length (n # ns)
        \<and> findSpan k ((n # ns) ! 0) = Some p
        \<and> (\<forall>j' < 0. findSpan k ((n # ns) ! j') = None)
        \<and> (\<exists>tagName cls children.
             nodeAtPage p ((n # ns) ! 0) = Some (PageElement (Some k) tagName cls children))"
      by simp
    then show ?thesis by blast
  qed
qed

lemma findSpan_found:
  "findSpan k n = Some rp \<Longrightarrow>
     \<exists>tagName cls children. nodeAtPage rp n = Some (PageElement (Some k) tagName cls children)"
  by (rule findSpan_found_aux(1))

lemma findSpan_step:
  assumes "findSpan k (PageElement mark tagName cls children) = Some (j # p)"
  shows "mark \<noteq> Some k \<and> j < length children \<and> findSpan k (children ! j) = Some p"
proof -
  from assms have m: "mark \<noteq> Some k" by (auto split: if_splits)
  with assms have "findSpanIn k 0 children = Some (j # p)" by simp
  from findSpan_found_aux(2)[OF this] m show ?thesis by auto
qed

lemma findSpan_parent_unmarked:
  "findSpan k n = Some (p @ [i]) \<Longrightarrow> nodeAtPage p n = Some (PageElement mark tagName cls children)
   \<Longrightarrow> mark \<noteq> Some k"
proof (induction p arbitrary: n)
  case Nil
  then show ?case by (auto split: if_splits)
next
  case (Cons j p)
  from Cons.prems(2) obtain mark' tagName' cls' children' where
    n: "n = PageElement mark' tagName' cls' children'"
    by (cases n) auto
  from findSpan_step[of k mark' tagName' cls' children' j "p @ [i]"] Cons.prems(1) n
  have j: "j < length children'" and f: "findSpan k (children' ! j) = Some (p @ [i])" by auto
  from Cons.prems(2) n j have "nodeAtPage p (children' ! j) = Some (PageElement mark tagName cls children)"
    by simp
  from Cons.IH[OF f this] show ?case .
qed

lemma nodeAtPage_snoc:
  "nodeAtPage (p @ [i]) n = Some x \<Longrightarrow>
   \<exists>mark tagName cls children. nodeAtPage p n = Some (PageElement mark tagName cls children)
      \<and> i < length children \<and> children ! i = x"
proof -
  assume a: "nodeAtPage (p @ [i]) n = Some x"
  then obtain m where m: "nodeAtPage p n = Some m" and x: "nodeAtPage [i] m = Some x"
    by (auto simp: nodeAtPage_append split: option.splits)
  from x show ?thesis using m by (cases m) (auto split: if_splits)
qed

text \<open>The marker found, seen from its parent.\<close>

lemma findSpan_in_parent:
  assumes "findSpan k n = Some rp" "rp \<noteq> []"
  shows "\<exists>mark tagName cls children tagName' cls' children'.
           nodeAtPage (butlast rp) n = Some (PageElement mark tagName cls children)
           \<and> mark \<noteq> Some k \<and> last rp < length children
           \<and> children ! last rp = PageElement (Some k) tagName' cls' children'
           \<and> nodeAtPage rp n = Some (PageElement (Some k) tagName' cls' children')"
proof -
  from assms(2) have rp: "rp = butlast rp @ [last rp]" by simp
  from findSpan_found[OF assms(1)] obtain tagName' cls' children' where
    at: "nodeAtPage rp n = Some (PageElement (Some k) tagName' cls' children')" by blast
  with rp have "nodeAtPage (butlast rp @ [last rp]) n = Some (PageElement (Some k) tagName' cls' children')"
    by simp
  from nodeAtPage_snoc[OF this] obtain mark tagName cls children where
    p: "nodeAtPage (butlast rp) n = Some (PageElement mark tagName cls children)"
       "last rp < length children" "children ! last rp = PageElement (Some k) tagName' cls' children'"
    by blast
  from assms(1) rp have "findSpan k n = Some (butlast rp @ [last rp])" by simp
  from findSpan_parent_unmarked[OF this p(1)] have "mark \<noteq> Some k" .
  with p at show ?thesis by blast
qed

lemma childCount_update:
  "i < length children \<Longrightarrow>
   sum_list (map (childCount k) (children[i := c]))  + childCount k (children ! i)
     = sum_list (map (childCount k) children) + childCount k c"
proof (induction children arbitrary: i)
  case Nil
  then show ?case by simp
next
  case (Cons a children)
  then show ?case by (cases i) auto
qed

lemma modifyAt_childCount:
  "nodeAtPage p n = Some m \<Longrightarrow> childCount k (f m) < childCount k m \<Longrightarrow>
   childCount k (modifyAt p f n) < childCount k n"
proof (induction p arbitrary: n)
  case Nil
  then show ?case by simp
next
  case (Cons i p)
  show ?case
  proof (cases n)
    case (PageText d)
    with Cons.prems show ?thesis by simp
  next
    case (PageElement mark tagName cls children)
    with Cons.prems have i: "i < length children" and at: "nodeAtPage p (children ! i) = Some m"
      by (auto split: if_splits)
    from Cons.IH[OF at Cons.prems(2)]
    have lt: "childCount k (modifyAt p f (children ! i)) < childCount k (children ! i)" .
    from childCount_update[OF i, of k "modifyAt p f (children ! i)"] lt
    have "sum_list (map (childCount k) (children[i := modifyAt p f (children ! i)]))
            < sum_list (map (childCount k) children)" by linarith
    with i PageElement show ?thesis by simp
  qed
qed

lemma liftFirstChild_childCount:
  assumes "i < length children" "children ! i = PageElement (Some k) tagName cls (x # xs)"
  shows "sum_list (map (childCount k) (liftFirstChild i children))
           < sum_list (map (childCount k) children)"
proof -
  have c: "children = take i children @ children ! i # drop (Suc i) children"
    using assms(1) by (simp add: id_take_nth_drop)
  have "sum_list (map (childCount k) children)
          = sum_list (map (childCount k) (take i children)) + childCount k (children ! i)
            + sum_list (map (childCount k) (drop (Suc i) children))"
    by (subst c) simp
  moreover have "liftFirstChild i children
          = take i children @ x # PageElement (Some k) tagName cls xs # drop (Suc i) children"
    using assms by (simp add: liftFirstChild_def)
  ultimately show ?thesis using assms(2) by simp
qed

lemma pageBrowser_fields:
  "bodyTree (pageBrowser live clock lower hide) = (\<lambda>d. plainTree (pageBody d))"
  "rangeBoundary (pageBrowser live clock lower hide) = currentBoundary live"
  "dateNow (pageBrowser live clock lower hide) = clock"
  "toLowerCase (pageBrowser live clock lower hide) = lower"
  "createSpan (pageBrowser live clock lower hide) = pageCreateSpan"
  "surroundContents (pageBrowser live clock lower hide) = pageSurroundContents live"
  "extractContents (pageBrowser live clock lower hide) = pageExtractContents live"
  "appendChild (pageBrowser live clock lower hide) = pageAppendChild"
  "insertNode (pageBrowser live clock lower hide) = pageInsertNode live"
  "parentNode (pageBrowser live clock lower hide) = pageParentNode"
  "firstChild (pageBrowser live clock lower hide) = pageFirstChild"
  "insertBefore (pageBrowser live clock lower hide) = pageInsertBefore"
  "removeChild (pageBrowser live clock lower hide) = pageRemoveChild"
  "isElementNode (pageBrowser live clock lower hide) = pageIsElementNode"
  "normalizeNode (pageBrowser live clock lower hide) = pageNormalize"
  "hideTooltip (pageBrowser live clock lower hide) = hide"
  by (simp_all add: pageBrowser_def)

text \<open>Wrapping a range keeps the text of the page, whether the call returns or throws.\<close>

lemma pageSurroundContents_text:
  assumes "pageSurroundContents live d r newParent = (res, d')"
  shows "pageText (pageBody d') = pageText (pageBody d)"
proof (cases newParent)
  case (SpanRef k)
  show ?thesis
  proof (cases "map_of (detachedSpans d) k")
    case None
    with SpanRef assms show ?thesis by (auto simp: pageSurroundContents_def)
  next
    case (Some x)
    show ?thesis
    proof (cases x)
      case (PageText t)
      with Some SpanRef assms show ?thesis by (auto simp: pageSurroundContents_def)
    next
      case (PageElement mark tagName cls children)
      let ?b = "currentBoundary live d r"
      show ?thesis
      proof (cases "partialElement (startPath ?b) (endPath ?b) (pageBody d)")
        case True
        with PageElement Some SpanRef assms show ?thesis
          by (auto simp: pageSurroundContents_def Let_def)
      next
        case False
        show ?thesis
        proof (cases "extractIn (startPath ?b) (startOff ?b) (endPath ?b) (endOff ?b) (pageBody d)")
          case None
          with False PageElement Some SpanRef assms show ?thesis
            by (auto simp: pageSurroundContents_def Let_def)
        next
          case (Some e)
          obtain body1 fragment cp co where e: "e = (body1, fragment, cp, co)" by (cases e)
          have "pageText (PageElement mark tagName cls fragment) = textOfAll fragment" by simp
          from extract_then_insert[OF Some[unfolded e] this] obtain body2 where
            ins: "insertAt cp co (PageElement mark tagName cls fragment) body1 = Some body2"
            and t: "pageText body2 = pageText (pageBody d)" by blast
          from assms SpanRef \<open>map_of (detachedSpans d) k = Some x\<close> PageElement False Some e ins
          have "pageBody d' = body2"
            by (auto simp: pageSurroundContents_def Let_def)
          with t show ?thesis by simp
        qed
      qed
    qed
  qed
next
  case (FragmentRef j)
  with assms show ?thesis by (auto simp: pageSurroundContents_def)
next
  case (NodeAtPath p)
  with assms show ?thesis by (auto simp: pageSurroundContents_def)
qed

text \<open>
  The fallback: what \<^verbatim>\<open>extractContents\<close> takes out goes into the new \<^verbatim>\<open>span\<close>, and
  \<^verbatim>\<open>insertNode\<close> puts the \<^verbatim>\<open>span\<close> where the range has collapsed.
\<close>

lemma alternativeBody_text:
  assumes "alternativeBody (pageBrowser live clock lower hide) mode d r m hid = (res, d')"
  shows "pageText (pageBody d') = pageText (pageBody d)"
proof -
  let ?b = "currentBoundary live d r"
  show ?thesis
  proof (cases "extractIn (startPath ?b) (startOff ?b) (endPath ?b) (endOff ?b) (pageBody d)")
    case None
    with assms show ?thesis
      by (auto simp: alternativeBody_def thenDo_def pageBrowser_fields pageExtractContents_def Let_def)
  next
    case (Some e)
    obtain body1 fragment cp co where e: "e = (body1, fragment, cp, co)" by (cases e)
    let ?k = "Suc (nextNumber d)"
    let ?x = "PageElement (Some ?k) ''SPAN'' (className (spanFor mode m hid False)) fragment"
    have "pageText ?x = textOfAll fragment" by simp
    from extract_then_insert[OF Some[unfolded e] this] obtain body2 where
      ins: "insertAt cp co ?x body1 = Some body2"
      and t: "pageText body2 = pageText (pageBody d)" by blast
    from assms Some e ins have "pageBody d' = body2"
      by (auto simp: alternativeBody_def thenDo_def pageBrowser_fields pageExtractContents_def
            pageCreateSpan_def pageAppendChild_def pageInsertNode_def currentBoundary_def Let_def)
    with t show ?thesis by simp
  qed
qed

lemma primaryBody_text:
  assumes "primaryBody (pageBrowser live clock lower hide) mode d r m hid = (res, d')"
  shows "pageText (pageBody d') = pageText (pageBody d)"
proof -
  let ?api = "pageBrowser live clock lower hide"
  show ?thesis
  proof (cases "collapsed (rangeBoundary ?api d r)
                \<or> isRangeHighlighted (bodyTree ?api d) (rangeBoundary ?api d r)")
    case True
    with assms show ?thesis by (auto simp: primaryBody_def)
  next
    case False
    let ?d1 = "snd (pageCreateSpan d (spanFor mode m hid True))"
    let ?s = "fst (pageCreateSpan d (spanFor mode m hid True))"
    obtain res1 d2 where s: "pageSurroundContents live ?d1 r ?s = (res1, d2)"
      by (cases "pageSurroundContents live ?d1 r ?s")
    from pageSurroundContents_text[OF s] have "pageText (pageBody d2) = pageText (pageBody d)"
      by (simp add: pageCreateSpan_def)
    moreover from assms False s have "d' = d2"
      by (cases res1) (auto simp: primaryBody_def thenDo_def pageBrowser_fields split: prod.splits)
    ultimately show ?thesis by simp
  qed
qed

lemma createHighlightElement_text:
  assumes "createHighlightElement (pageBrowser live clock lower hide) mode d r m hid = (res, d')"
  shows "pageText (pageBody d') = pageText (pageBody d)"
proof -
  let ?api = "pageBrowser live clock lower hide"
  obtain res1 d1 where p: "primaryBody ?api mode d r m hid = (res1, d1)"
    by (cases "primaryBody ?api mode d r m hid")
  note t1 = primaryBody_text[OF p]
  show ?thesis
  proof (cases res1)
    case (Inr v)
    with p assms have "d' = d1" by (simp add: createHighlightElement_def tryCatch_def)
    with t1 show ?thesis by simp
  next
    case (Inl e)
    obtain res2 d2 where a: "alternativeBody ?api mode d1 r m hid = (res2, d2)"
      by (cases "alternativeBody ?api mode d1 r m hid")
    note t2 = alternativeBody_text[OF a]
    from Inl p a assms have "d' = d2"
      by (cases res2)
         (auto simp: createHighlightElement_def createHighlightElementAlternative_def tryCatch_def)
    with t1 t2 show ?thesis by simp
  qed
qed

lemma forEachRangeCallback_text:
  assumes "forEachRangeCallback (pageBrowser live clock lower hide) m index x h = Inr h'"
  shows "pageText (pageBody (domState h')) = pageText (pageBody (domState h))"
proof -
  let ?api = "pageBrowser live clock lower hide"
  let ?hid = "(index, snd x, dateNow ?api (domState h))"
  obtain res d' where
    c: "createHighlightElement ?api (currentMode h) (domState h) (rangeObj (fst x)) m ?hid = (res, d')"
    by (cases "createHighlightElement ?api (currentMode h) (domState h) (rangeObj (fst x)) m ?hid")
  note t = createHighlightElement_text[OF c]
  from assms c have "domState h' = d'"
    by (auto simp: forEachRangeCallback_def Let_def split: sum.splits option.splits)
  with t show ?thesis by simp
qed

lemma forEachRange_text:
  "forEachRange (pageBrowser live clock lower hide) m index xs h = Inr h' \<Longrightarrow>
   pageText (pageBody (domState h')) = pageText (pageBody (domState h))"
proof (induction xs arbitrary: h)
  case Nil
  then show ?case by simp
next
  case (Cons x xs)
  let ?api = "pageBrowser live clock lower hide"
  from Cons.prems obtain h1 where
    h1: "forEachRangeCallback ?api m index x h = Inr h1"
    and r: "forEachRange ?api m index xs h1 = Inr h'"
    by (auto split: sum.splits)
  from Cons.IH[OF r] forEachRangeCallback_text[OF h1] show ?case by simp
qed

lemma highlightManipulation_text:
  assumes "highlightManipulation (pageBrowser live clock lower hide) m index h = Some (Inr h')"
  shows "pageText (pageBody (domState h')) = pageText (pageBody (domState h))"
  using assms forEachRange_text[of live clock lower hide m index _ h h']
  by (auto simp: highlightManipulation_def split: option.splits)

lemma forEachManipulation_text:
  "forEachManipulation (pageBrowser live clock lower hide) xs h = Some (Inr h') \<Longrightarrow>
   pageText (pageBody (domState h')) = pageText (pageBody (domState h))"
proof (induction xs arbitrary: h)
  case Nil
  then show ?case by simp
next
  case (Cons x xs)
  let ?api = "pageBrowser live clock lower hide"
  obtain m index where x: "x = (m, index)" by (cases x)
  with Cons.prems obtain h1 where
    h1: "highlightManipulation ?api m index h = Some (Inr h1)"
    and r: "forEachManipulation ?api xs h1 = Some (Inr h')"
    by (auto split: option.splits sum.splits)
  from Cons.IH[OF r] highlightManipulation_text[OF h1] show ?case by simp
qed

text \<open>
  What holds before the unwrap loop and is kept by every \<^verbatim>\<open>insertBefore\<close> of the loop holds
  when the loop returns, and then the marker has no child left.
\<close>

lemma moveChildren_invariant:
  assumes step: "\<And>d child res d'. firstChild api d el = Some child \<Longrightarrow>
                   insertBefore api d parent child el = (res, d') \<Longrightarrow> I d \<Longrightarrow> I d'"
    and run: "moveChildren api parent el d = Some (res, d')"
    and start: "I d"
  shows "I d' \<and> (res = Inr () \<longrightarrow> firstChild api d' el = None)"
proof -
  define P where "P = (\<lambda>api' parent' el' d0 (y :: (domException + unit) \<times> 'a).
      api' = api \<and> parent' = parent \<and> el' = el \<longrightarrow> I d0 \<longrightarrow>
        I (snd y) \<and> (fst y = Inr () \<longrightarrow> firstChild api (snd y) el = None))"
  have "P api parent el d (res, d')"
  proof (rule moveChildren.raw_induct[where P = P, OF _ run])
    fix loop api' parent' el' d0 y
    assume IH: "\<And>a p e s z. loop a p e s = Some z \<Longrightarrow> P a p e s z"
      and body: "(case firstChild api' d0 el' of
                    None \<Rightarrow> Some (Inr (), d0)
                  | Some child \<Rightarrow>
                      (case insertBefore api' d0 parent' child el' of
                         (Inl e, d') \<Rightarrow> Some (Inl e, d')
                       | (Inr u, d') \<Rightarrow> loop api' parent' el' d')) = Some y"
    show "P api' parent' el' d0 y"
      unfolding P_def
    proof (intro impI)
      assume eq: "api' = api \<and> parent' = parent \<and> el' = el" and I: "I d0"
      show "I (snd y) \<and> (fst y = Inr () \<longrightarrow> firstChild api (snd y) el = None)"
      proof (cases "firstChild api d0 el")
        case None
        with body eq have "y = (Inr (), d0)" by simp
        with None I show ?thesis by simp
      next
        case (Some child)
        obtain r1 d1 where ib: "insertBefore api d0 parent child el = (r1, d1)"
          by (cases "insertBefore api d0 parent child el")
        from step[OF Some ib I] have I1: "I d1" .
        show ?thesis
        proof (cases r1)
          case (Inl e)
          with body eq Some ib have "y = (Inl e, d1)" by simp
          with I1 show ?thesis by simp
        next
          case (Inr u)
          with body eq Some ib have "loop api parent el d1 = Some y" by simp
          from IH[OF this] I1 show ?thesis by (simp add: P_def)
        qed
      qed
    qed
  qed
  with start show ?thesis by (simp add: P_def)
qed

lemma pageInsertBefore_text:
  assumes "pageInsertBefore d parent child el = (res, d')"
  shows "pageText (pageBody d') = pageText (pageBody d)"
proof -
  have "pageText (modifyAt pp (onChildren (liftFirstChild i)) (pageBody d)) = pageText (pageBody d)"
    for pp i
    by (rule modifyAt_text_all) (rule onChildren_liftFirstChild_text)
  with assms show ?thesis
    by (auto simp: pageInsertBefore_def split: nodeRef.splits option.splits if_splits)
qed

text \<open>A marker whose \<^verbatim>\<open>firstChild\<close> is \<^verbatim>\<open>null\<close> holds no text, so its removal loses none.\<close>

lemma pageRemoveChild_text:
  assumes none: "pageFirstChild d el = None"
    and rem: "pageRemoveChild d parent el = (res, d')"
  shows "pageText (pageBody d') = pageText (pageBody d)"
proof (cases res)
  case (Inl e)
  with rem have "d' = d"
    by (auto simp: pageRemoveChild_def split: nodeRef.splits option.splits if_splits)
  then show ?thesis by simp
next
  case (Inr u)
  with rem obtain pp k path where
    refs: "parent = NodeAtPath pp" "el = SpanRef k"
    and found: "findSpan k (pageBody d) = Some path" and ne: "path \<noteq> []"
    and pp: "butlast path = pp"
    and body: "pageBody d' = modifyAt pp (onChildren (removeNth (last path))) (pageBody d)"
    by (auto simp: pageRemoveChild_def split: nodeRef.splits option.splits if_splits)
  from findSpan_in_parent[OF found ne] obtain mark tagName cls children tagName' cls' children' where
    par: "nodeAtPage (butlast path) (pageBody d) = Some (PageElement mark tagName cls children)"
    and i: "last path < length children"
    and el: "children ! last path = PageElement (Some k) tagName' cls' children'"
    and at: "nodeAtPage path (pageBody d) = Some (PageElement (Some k) tagName' cls' children')"
    by blast
  from none refs found at have "children' = []"
    by (cases children') (auto simp: pageFirstChild_def pathOf_def)
  with el have "pageText (children ! last path) = []" by simp
  from removeNth_text[OF i this]
  have "pageText (onChildren (removeNth (last path)) (PageElement mark tagName cls children))
          = pageText (PageElement mark tagName cls children)"
    by (simp add: onChildren_def)
  from modifyAt_text[where f = "onChildren (removeNth (last path))", OF par this] body pp
  show ?thesis by simp
qed

lemma pageNormalize_text: "pageText (pageBody (pageNormalize d n)) = pageText (pageBody d)"
proof (cases "pathOf d n")
  case None
  then show ?thesis by (simp add: pageNormalize_def)
next
  case (Some path)
  have "pageText (modifyAt path normalizeTree (pageBody d)) = pageText (pageBody d)"
    by (rule modifyAt_text_all) (rule normalizeTree_text)
  with Some show ?thesis by (simp add: pageNormalize_def)
qed

lemma unwrapBody_text:
  assumes "unwrapBody (pageBrowser live clock lower hide) d highlight = Some (res, d')"
  shows "pageText (pageBody d') = pageText (pageBody d)"
proof (cases "pageParentNode d (element highlight)")
  case None
  with assms show ?thesis by (simp add: unwrapBody_def pageBrowser_fields)
next
  case (Some parent)
  let ?api = "pageBrowser live clock lower hide"
  let ?el = "element highlight"
  from assms Some obtain moved where
    mv: "moveChildren ?api parent ?el d = Some moved"
    by (auto simp: unwrapBody_def pageBrowser_fields split: option.splits)
  obtain r1 d1 where moved: "moved = (r1, d1)" by (cases moved)
  have step: "pageText (pageBody d3) = pageText (pageBody d)"
    if "firstChild ?api d2 ?el = Some child" "insertBefore ?api d2 parent child ?el = (r, d3)"
       "pageText (pageBody d2) = pageText (pageBody d)" for d2 child r d3
    using that pageInsertBefore_text[of d2 parent child ?el r d3] by (simp add: pageBrowser_fields)
  from moveChildren_invariant[of ?api ?el parent "\<lambda>x. pageText (pageBody x) = pageText (pageBody d)",
      OF step mv[unfolded moved]]
  have t1: "pageText (pageBody d1) = pageText (pageBody d)"
    and childless: "r1 = Inr () \<longrightarrow> pageFirstChild d1 ?el = None"
    by (simp_all add: pageBrowser_fields)
  show ?thesis
  proof (cases r1)
    case (Inl e)
    with assms Some mv moved have "d' = d1"
      by (simp add: unwrapBody_def pageBrowser_fields thenDo_def)
    with t1 show ?thesis by simp
  next
    case (Inr u)
    with childless have none: "pageFirstChild d1 ?el = None" by simp
    obtain r2 d2 where rm: "pageRemoveChild d1 parent ?el = (r2, d2)"
      by (cases "pageRemoveChild d1 parent ?el")
    from pageRemoveChild_text[OF none rm] t1
    have t2: "pageText (pageBody d2) = pageText (pageBody d)" by simp
    show ?thesis
    proof (cases r2)
      case (Inl e)
      with assms Some mv moved Inr rm have "d' = d2"
        by (simp add: unwrapBody_def pageBrowser_fields thenDo_def)
      with t2 show ?thesis by simp
    next
      case (Inr u2)
      with assms Some mv moved \<open>r1 = Inr u\<close> rm
      have "d' = (if pageIsElementNode d2 parent then pageNormalize d2 parent else d2)"
        by (auto simp: unwrapBody_def pageBrowser_fields thenDo_def split: if_splits)
      with t2 show ?thesis by (simp add: pageNormalize_text)
    qed
  qed
qed

lemma unwrapHighlight_text:
  assumes "unwrapHighlight (pageBrowser live clock lower hide) d highlight = Some (res, d')"
  shows "pageText (pageBody d') = pageText (pageBody d)"
proof -
  let ?api = "pageBrowser live clock lower hide"
  from assms obtain r1 d1 where
    b: "unwrapBody ?api d highlight = Some (r1, d1)"
    and t: "tryCatch (r1, d1) (\<lambda>error d'. (Inr (), d')) = (res, d')"
    by (auto simp: unwrapHighlight_def split: option.splits)
  from t have "d' = d1" by (cases r1) (auto simp: tryCatch_def)
  with unwrapBody_text[OF b] show ?thesis by simp
qed

lemma forEachHighlight_text:
  "forEachHighlight (pageBrowser live clock lower hide) hs d = Some (res, d') \<Longrightarrow>
   pageText (pageBody d') = pageText (pageBody d)"
proof (induction hs arbitrary: d)
  case Nil
  then show ?case by simp
next
  case (Cons a hs)
  let ?api = "pageBrowser live clock lower hide"
  from Cons.prems obtain r1 d1 where u: "unwrapHighlight ?api d a = Some (r1, d1)"
    by (cases "unwrapHighlight ?api d a") auto
  note t1 = unwrapHighlight_text[OF u]
  show ?case
  proof (cases r1)
    case (Inl e)
    with Cons.prems u have "d' = d1" by simp
    with t1 show ?thesis by simp
  next
    case (Inr v)
    with Cons.prems u have "forEachHighlight ?api hs d1 = Some (res, d')" by simp
    from Cons.IH[OF this] t1 show ?thesis by simp
  qed
qed

lemma clearHighlights_text:
  assumes "clearHighlights (pageBrowser live clock lower hide) h = Some (Inr h')"
  shows "pageText (pageBody (domState h')) = pageText (pageBody (domState h))"
proof -
  let ?api = "pageBrowser live clock lower hide"
  from assms obtain r d' where
    f: "forEachHighlight ?api (map snd (highlightedElements h)) (domState h) = Some (r, d')"
    and h': "domState h' = d'"
    by (auto simp: clearHighlights_def split: option.splits sum.splits prod.splits)
  from forEachHighlight_text[OF f] h' show ?thesis by simp
qed

text \<open>The unwrap loop ends: every turn takes one child away from the marker.\<close>

lemma pageBrowser_movesChildOut: "movesChildOut (pageBrowser live clock lower hide)"
proof -
  let ?count = "\<lambda>d el. case el of SpanRef k \<Rightarrow> childCount k (pageBody d) | _ \<Rightarrow> 0"
  have "?count d' el < ?count d el"
    if fc: "pageFirstChild d el = Some child"
      and ib: "pageInsertBefore d parent child el = (Inr (), d')" for d parent child el d'
  proof -
    from ib obtain pp k path where
      refs: "parent = NodeAtPath pp" "el = SpanRef k"
      and found: "findSpan k (pageBody d) = Some path" and ne: "path \<noteq> []"
      and pp: "butlast path = pp"
      and body: "pageBody d' = modifyAt pp (onChildren (liftFirstChild (last path))) (pageBody d)"
      by (auto simp: pageInsertBefore_def split: nodeRef.splits option.splits if_splits)
    from findSpan_in_parent[OF found ne] obtain mark tagName cls children tagName' cls' children' where
      par: "nodeAtPage (butlast path) (pageBody d) = Some (PageElement mark tagName cls children)"
      and unmarked: "mark \<noteq> Some k"
      and i: "last path < length children"
      and el: "children ! last path = PageElement (Some k) tagName' cls' children'"
      and at: "nodeAtPage path (pageBody d) = Some (PageElement (Some k) tagName' cls' children')"
      by blast
    from fc refs found at obtain x xs where "children' = x # xs"
      by (cases children') (auto simp: pageFirstChild_def pathOf_def)
    with el have el': "children ! last path = PageElement (Some k) tagName' cls' (x # xs)" by simp
    from liftFirstChild_childCount[OF i el'] unmarked
    have "childCount k (onChildren (liftFirstChild (last path)) (PageElement mark tagName cls children))
            < childCount k (PageElement mark tagName cls children)"
      by (simp add: onChildren_def)
    from modifyAt_childCount[where f = "onChildren (liftFirstChild (last path))", OF par this]
      body pp refs
    show ?thesis by simp
  qed
  then show ?thesis
    unfolding movesChildOut_def
    by (intro exI[of _ ?count]) (simp add: pageBrowser_fields)
qed

section \<open>Claims\<close>

text \<open>
  C1, as amended. For a string \<open>S\<close> that occurs in the concatenated normalized text and
  whose normalization is not empty, \<open>findTextRanges\<close> returns at least one match; and for
  every returned match that starts and ends in one text node whose raw text is already in
  normalized form, the text of the range and its normalization both equal
  \<open>normalizeText S\<close>.
\<close>

theorem located_text_roundtrip:
  assumes "occursAt (fullNormalizedText (buildTextNodeMap doc)) S k"
    and "normalizeText S \<noteq> []"
  shows "\<exists>ranges.
     findTextRanges (buildTextNodeMap doc) S = Some ranges \<and> ranges \<noteq> [] \<and>
     (\<forall>r \<in> set ranges.
        startContainer (rangeObj r) = endContainer (rangeObj r) \<and>
        normalizeText (textContent (doc ! startContainer (rangeObj r)))
          = textContent (doc ! startContainer (rangeObj r)) \<longrightarrow>
        originalText r = normalizeText S \<and> rangeNormalizedText r = normalizeText S)"
proof -
  let ?m = "buildTextNodeMap doc"
  let ?t = "normalizeText S"
  let ?occ = "allOccurrences (fullNormalizedText ?m) ?t"
  let ?ranges = "rangesAt ?m (length ?t) ?occ"
  have f: "findTextRanges ?m S = Some ?ranges" by (rule findTextRanges_closed[OF assms(2)])
  have all: "\<forall>k \<in> set ?occ. \<exists>r. createDOMRange ?m (int k) (int k + int (length ?t)) = Some r"
  proof
    fix k assume "k \<in> set ?occ"
    then have "occursAt (fullNormalizedText ?m) ?t k"
      by (simp add: allOccurrences_def occurrencesFrom_def)
    from createDOMRange_occurrence[OF normalForm_normalizeText assms(2) this]
    show "\<exists>r. createDOMRange ?m (int k) (int k + int (length ?t)) = Some r" .
  qed
  from normalized_substring_occurs[OF assms(1)] obtain p where
    p: "occursAt (fullNormalizedText ?m) ?t p" by blast
  from occursAt_lt[OF assms(2) p] p have "p \<in> set ?occ"
    by (simp add: allOccurrences_def occurrencesFrom_def)
  then have "?occ \<noteq> []" by auto
  with rangesAt_all_Some[OF all] have ne: "?ranges \<noteq> []" by auto
  have rt: "originalText r = ?t \<and> rangeNormalizedText r = ?t"
    if r: "r \<in> set ?ranges"
      and same: "startContainer (rangeObj r) = endContainer (rangeObj r)"
      and nf: "normalizeText (textContent (doc ! startContainer (rangeObj r)))
                 = textContent (doc ! startContainer (rangeObj r))" for r
  proof -
    from rangesAt_mem[OF r] obtain q where q: "q \<in> set ?occ"
      "createDOMRange ?m (int q) (int q + int (length ?t)) = Some r" by blast
    from q(1) have "occursAt (fullNormalizedText ?m) ?t q"
      by (simp add: allOccurrences_def occurrencesFrom_def)
    from createDOMRange_occurrence_text[OF normalForm_normalizeText assms(2) this q(2) same nf]
    show ?thesis .
  qed
  from f ne rt show ?thesis by blast
qed

theorem located_text_roundtrip_witness:
  "occursAt (fullNormalizedText (buildTextNodeMap sentenceDoc)) (js '' sky is '') 3 \<and>
   normalizeText (js '' sky is '') \<noteq> [] \<and>
   (\<exists>ranges.
     findTextRanges (buildTextNodeMap sentenceDoc) (js '' sky is '') = Some ranges \<and> ranges \<noteq> [] \<and>
     (\<forall>r \<in> set ranges.
        startContainer (rangeObj r) = endContainer (rangeObj r) \<and>
        normalizeText (textContent (sentenceDoc ! startContainer (rangeObj r)))
          = textContent (sentenceDoc ! startContainer (rangeObj r)) \<longrightarrow>
        originalText r = normalizeText (js '' sky is '') \<and>
        rangeNormalizedText r = normalizeText (js '' sky is '')))"
proof -
  have a: "occursAt (fullNormalizedText (buildTextNodeMap sentenceDoc)) (js '' sky is '') 3"
    by code_simp
  have b: "normalizeText (js '' sky is '') \<noteq> []" by code_simp
  from located_text_roundtrip[OF a b] a b show ?thesis by blast
qed

text \<open>
  C1, as stated, fails. In a document of two sibling elements with the texts \<open>a\<close> and
  \<open>b\<close> the concatenated text is \<open>a b\<close>; locating \<open>a b\<close> gives one match whose text is
  \<open>ab\<close>, since the separating space exists in the index only; and the substring made of
  that space has no match at all.
\<close>

theorem roundtrip_counterexample:
  "occursAt (fullNormalizedText (buildTextNodeMap twoNodeDoc)) (js ''a b'') 0 \<and>
   findTextRanges (buildTextNodeMap twoNodeDoc) (js ''a b'') =
     Some [\<lparr>rangeObj = \<lparr>startContainer = 0, rangeStartOffset = 0,
                         endContainer = 1, rangeEndOffset = 1\<rparr>,
            originalText = js ''ab'', rangeNormalizedText = js ''ab''\<rparr>] \<and>
   normalizeText (js ''a b'') = js ''a b'' \<and> js ''ab'' \<noteq> js ''a b'' \<and>
   occursAt (fullNormalizedText (buildTextNodeMap twoNodeDoc)) (js '' '') 1 \<and>
   findTextRanges (buildTextNodeMap twoNodeDoc) (js '' '') = Some []"
  by code_simp

text \<open>
  C2 fails on the code. The quotation \<open>aa bb cc\<close> is located in \<^verbatim>\<open><p>aa<b>bb</b>cc</p>\<close> and
  wrapped. Located a second time, its range lies inside that marker and has the marker
  itself as common ancestor; \<open>isRangeHighlighted\<close> looks only below that element, answers
  \<open>False\<close>, and a second marker is made and recorded for the same text.
\<close>

theorem nested_marker_not_rejected:
  "findTextRanges (buildTextNodeMap (textNodesOf quoteTree)) (js ''aa bb cc'') =
     Some [\<lparr>rangeObj = \<lparr>startContainer = 0, rangeStartOffset = 0,
                         endContainer = 2, rangeEndOffset = 2\<rparr>,
            originalText = js ''aabbcc'', rangeNormalizedText = js ''aabbcc''\<rparr>] \<and>
   \<not> isRangeHighlighted quoteTree
        (treeRangeOf quoteTree \<lparr>startContainer = 0, rangeStartOffset = 0,
                                 endContainer = 2, rangeEndOffset = 2\<rparr>) \<and>
   findTextRanges (buildTextNodeMap (textNodesOf markedTree)) (js ''aa bb cc'') =
     Some [\<lparr>rangeObj = \<lparr>startContainer = 1, rangeStartOffset = 0,
                         endContainer = 3, rangeEndOffset = 2\<rparr>,
            originalText = js ''aabbcc'', rangeNormalizedText = js ''aabbcc''\<rparr>] \<and>
   treeRangeOf markedTree \<lparr>startContainer = 1, rangeStartOffset = 0,
                            endContainer = 3, rangeEndOffset = 2\<rparr>
     = \<lparr>startPath = [0, 1, 0], startOff = 0, endPath = [0, 1, 2], endOff = 2\<rparr> \<and>
   nodeAt markedTree [0, 1] =
     Some (ElementNode ''SPAN'' (getHighlightClass FullColor loaded_language)
             [TextNode (js ''aa''), ElementNode ''B'' [] [TextNode (js ''bb'')], TextNode (js ''cc'')]) \<and>
   matchesHighlight (ElementNode ''SPAN'' (getHighlightClass FullColor loaded_language)
             [TextNode (js ''aa''), ElementNode ''B'' [] [TextNode (js ''bb'')], TextNode (js ''cc'')]) \<and>
   \<not> collapsed \<lparr>startPath = [0, 1, 0], startOff = 0, endPath = [0, 1, 2], endOff = 2\<rparr> \<and>
   \<not> isRangeHighlighted markedTree
        \<lparr>startPath = [0, 1, 0], startOff = 0, endPath = [0, 1, 2], endOff = 2\<rparr> \<and>
   highlightManipulation wrappingBrowser quoteBlock 1 markedHighlighter =
     Some (Inr \<lparr>domState = 2,
                 highlightedElements =
                   [((0, 0, 0),
                     \<lparr>element = 1, manipulation = quoteBlock,
                       highlightRange = \<lparr>startContainer = 0, rangeStartOffset = 0,
                                          endContainer = 2, rangeEndOffset = 2\<rparr>,
                       highlightId = (0, 0, 0)\<rparr>),
                    ((1, 0, 0),
                     \<lparr>element = 2, manipulation = quoteBlock,
                       highlightRange = \<lparr>startContainer = 1, rangeStartOffset = 0,
                                          endContainer = 3, rangeEndOffset = 2\<rparr>,
                       highlightId = (1, 0, 0)\<rparr>)],
                 tooltipManager = (),
                 currentMode = FullColor\<rparr>)"
  by code_simp

text \<open>
  C3. For every state of the page, every list of spans and every mode,
  \<open>highlightManipulations\<close> followed by \<open>clearHighlights\<close> returns and leaves
  \<^verbatim>\<open>document.body.textContent\<close> as it was before the highlights were applied, whatever
  markers the highlighter held before and wherever the browser has moved the live ranges;
  and a second \<open>clearHighlights\<close> right after the first changes neither the document nor
  the map of markers nor the mode: all it does is call \<^verbatim>\<open>hideTooltip\<close> once more.
\<close>

theorem clear_restores_text:
  "\<exists>h1 h2.
     highlightManipulations (pageBrowser live clock lower hide) h manipulations mode = Some (Inr h1)
     \<and> clearHighlights (pageBrowser live clock lower hide) h1 = Some (Inr h2)
     \<and> textContentOf (bodyTree (pageBrowser live clock lower hide) (domState h2))
         = textContentOf (bodyTree (pageBrowser live clock lower hide) (domState h))
     \<and> highlightedElements h2 = []
     \<and> clearHighlights (pageBrowser live clock lower hide) h2
         = Some (Inr (h2\<lparr>tooltipManager := hide (tooltipManager h2)\<rparr>))"
proof -
  let ?api = "pageBrowser live clock lower hide"
  note law = pageBrowser_movesChildOut[of live clock lower hide]
  from clearHighlights_total[OF law, of "h\<lparr>currentMode := mode\<rparr>"] obtain h0 where
    c0: "clearHighlights ?api (h\<lparr>currentMode := mode\<rparr>) = Some (Inr h0)" by blast
  from forEachManipulation_total[of ?api "zip manipulations [0..<length manipulations]" h0]
  obtain h1 where
    f1: "forEachManipulation ?api (zip manipulations [0..<length manipulations]) h0 = Some (Inr h1)"
    by blast
  from c0 f1 have run: "highlightManipulations ?api h manipulations mode = Some (Inr h1)"
    by (simp add: highlightManipulations_def)
  from clearHighlights_text[OF c0] forEachManipulation_text[OF f1]
  have t1: "pageText (pageBody (domState h1)) = pageText (pageBody (domState h))" by simp
  from clearHighlights_total[OF law, of h1] obtain h2 where
    c2: "clearHighlights ?api h1 = Some (Inr h2)" and e2: "highlightedElements h2 = []"
    by auto
  from clearHighlights_text[OF c2] t1
  have t2: "pageText (pageBody (domState h2)) = pageText (pageBody (domState h))" by simp
  from clearHighlights_twice[OF c2]
  have c3: "clearHighlights ?api h2 = Some (Inr (h2\<lparr>tooltipManager := hide (tooltipManager h2)\<rparr>))"
    by (simp add: pageBrowser_fields)
  from t2 have "textContentOf (bodyTree ?api (domState h2)) = textContentOf (bodyTree ?api (domState h))"
    by (simp add: pageBrowser_fields textContentOf_plainTree)
  with run c2 e2 c3 show ?thesis by blast
qed

text \<open>
  On the paragraph \<^verbatim>\<open><p>aa<b>bb</b>cc</p>\<close> with the quotation \<open>aa bb\<close>: the primary wrap
  throws, the fallback puts the marker around \<open>aa\<close> and a clone of the \<^verbatim>\<open>b\<close> element, and
  after \<open>clearHighlights\<close> the text is \<open>aabbcc\<close> again (the emptied \<^verbatim>\<open>b\<close> element stays).
\<close>

theorem clear_restores_text_witness:
  "\<exists>h1 h2.
     highlightManipulations quoteBrowser quoteHighlighter [partBlock] FullColor = Some (Inr h1)
     \<and> clearHighlights quoteBrowser h1 = Some (Inr h2)
     \<and> pageBody (domState h1) =
         PageElement None ''BODY'' []
           [PageElement None ''P'' []
              [PageText [],
               PageElement (Some 2) ''SPAN'' (getHighlightClass FullColor loaded_language)
                 [PageText (js ''aa''), PageElement None ''B'' [] [PageText (js ''bb'')]],
               PageElement None ''B'' [] [PageText []],
               PageText (js ''cc'')]]
     \<and> pageBody (domState h2) =
         PageElement None ''BODY'' []
           [PageElement None ''P'' []
              [PageText (js ''aa''), PageElement None ''B'' [] [PageText (js ''bb'')],
               PageElement None ''B'' [] [], PageText (js ''cc'')]]
     \<and> textContentOf (bodyTree quoteBrowser (domState quoteHighlighter)) = js ''aabbcc''
     \<and> textContentOf (bodyTree quoteBrowser (domState h2)) = js ''aabbcc''
     \<and> highlightedElements h2 = []
     \<and> clearHighlights quoteBrowser h2 = Some (Inr h2)"
proof -
  from clear_restores_text[of liveInTree "\<lambda>d. 0" asciiLowerCase "\<lambda>t. t" quoteHighlighter
      "[partBlock]" FullColor]
  obtain h1 h2 where
    run: "highlightManipulations quoteBrowser quoteHighlighter [partBlock] FullColor = Some (Inr h1)"
    and clr: "clearHighlights quoteBrowser h1 = Some (Inr h2)"
    and same: "textContentOf (bodyTree quoteBrowser (domState h2))
                = textContentOf (bodyTree quoteBrowser (domState quoteHighlighter))"
    and emp: "highlightedElements h2 = []"
    and again: "clearHighlights quoteBrowser h2 = Some (Inr (h2\<lparr>tooltipManager := tooltipManager h2\<rparr>))"
    unfolding quoteBrowser_def by blast
  have p1: "pageAfter (highlightManipulations quoteBrowser quoteHighlighter [partBlock] FullColor) =
      Some (PageElement None ''BODY'' []
           [PageElement None ''P'' []
              [PageText [],
               PageElement (Some 2) ''SPAN'' (getHighlightClass FullColor loaded_language)
                 [PageText (js ''aa''), PageElement None ''B'' [] [PageText (js ''bb'')]],
               PageElement None ''B'' [] [PageText []],
               PageText (js ''cc'')]])"
    by code_simp
  have p2: "pageAfter (case highlightManipulations quoteBrowser quoteHighlighter [partBlock] FullColor of
                Some (Inr g) \<Rightarrow> clearHighlights quoteBrowser g | _ \<Rightarrow> None) =
      Some (PageElement None ''BODY'' []
           [PageElement None ''P'' []
              [PageText (js ''aa''), PageElement None ''B'' [] [PageText (js ''bb'')],
               PageElement None ''B'' [] [], PageText (js ''cc'')]])"
    by code_simp
  have t0: "textContentOf (bodyTree quoteBrowser (domState quoteHighlighter)) = js ''aabbcc''"
    by code_simp
  from p1 run have b1: "pageBody (domState h1) =
         PageElement None ''BODY'' []
           [PageElement None ''P'' []
              [PageText [],
               PageElement (Some 2) ''SPAN'' (getHighlightClass FullColor loaded_language)
                 [PageText (js ''aa''), PageElement None ''B'' [] [PageText (js ''bb'')]],
               PageElement None ''B'' [] [PageText []],
               PageText (js ''cc'')]]"
    by (simp add: pageAfter_def)
  from p2 run clr have b2: "pageBody (domState h2) =
         PageElement None ''BODY'' []
           [PageElement None ''P'' []
              [PageText (js ''aa''), PageElement None ''B'' [] [PageText (js ''bb'')],
               PageElement None ''B'' [] [], PageText (js ''cc'')]]"
    by (simp add: pageAfter_def)
  from again have again': "clearHighlights quoteBrowser h2 = Some (Inr h2)" by simp
  from run clr b1 b2 t0 same emp again' show ?thesis by auto
qed



text \<open>
  C5, as amended. \<open>findNodeAtPosition\<close> returns \<open>null\<close> exactly when the offset lies in no
  segment's range from \<open>startOffset\<close> up to \<open>endOffset\<close>, which is the case beyond the
  text and on every separator position; for an offset inside a segment it returns that
  segment's node and a raw offset not beyond the length of the node's text.
\<close>

theorem findNodeAtPosition_total_on_segments:
  "(findNodeAtPosition (buildTextNodeMap doc) p = None \<longleftrightarrow>
      \<not> (\<exists>e \<in> set (textPositionMap (buildTextNodeMap doc)).
            int (startOffset e) \<le> p \<and> p < int (endOffset e)))
   \<and> (\<forall>loc. findNodeAtPosition (buildTextNodeMap doc) p = Some loc \<longrightarrow>
        (\<exists>e \<in> set (textPositionMap (buildTextNodeMap doc)).
            int (startOffset e) \<le> p \<and> p < int (endOffset e) \<and>
            locNode loc = node e \<and>
            locOffset loc \<le> length (textContent (doc ! node e))))"
proof -
  let ?m = "buildTextNodeMap doc"
  have c: "contiguousFrom 0 (textPositionMap ?m)" by (rule positionMap_contiguous)
  have r: "rootTextNodes ?m = doc" by (simp add: buildTextNodeMap_simps)
  have A: "findNodeAtPosition ?m p = None \<longleftrightarrow>
      \<not> (\<exists>e \<in> set (textPositionMap ?m). int (startOffset e) \<le> p \<and> p < int (endOffset e))"
    unfolding findNodeAtPosition_def using findNodeLoop_None[OF c] by blast
  have B: "\<exists>e \<in> set (textPositionMap ?m).
            int (startOffset e) \<le> p \<and> p < int (endOffset e) \<and>
            locNode loc = node e \<and> locOffset loc \<le> length (textContent (doc ! node e))"
    if "findNodeAtPosition ?m p = Some loc" for loc
  proof -
    from that have "findNodeLoop doc (textPositionMap ?m) p 0 = Some loc"
      by (simp add: findNodeAtPosition_def r)
    from findNodeLoop_Some[OF c this] obtain e where e: "e \<in> set (textPositionMap ?m)"
      "int (startOffset e) \<le> p" "p < int (endOffset e)" "locNode loc = node e"
      "locOffset loc = min (denormalizeOffset (textContent (doc ! node e)) (nat (p - int (startOffset e))))
                            (length (textContent (doc ! node e)))" by blast
    from e(5) have "locOffset loc \<le> length (textContent (doc ! node e))" by simp
    with e show ?thesis by blast
  qed
  from A B show ?thesis by blast
qed

theorem findNodeAtPosition_total_on_segments_witness:
  "findNodeAtPosition (buildTextNodeMap twoNodeDoc) 2 = Some \<lparr>locNode = 1, locOffset = 0\<rparr> \<and>
   (\<exists>e \<in> set (textPositionMap (buildTextNodeMap twoNodeDoc)).
       int (startOffset e) \<le> 2 \<and> 2 < int (endOffset e) \<and>
       locNode \<lparr>locNode = 1, locOffset = 0\<rparr> = node e \<and>
       locOffset \<lparr>locNode = 1, locOffset = 0\<rparr> \<le> length (textContent (twoNodeDoc ! node e)))"
proof -
  have s: "findNodeAtPosition (buildTextNodeMap twoNodeDoc) 2 = Some \<lparr>locNode = 1, locOffset = 0\<rparr>"
    by code_simp
  with findNodeAtPosition_total_on_segments[of twoNodeDoc 2] show ?thesis by blast
qed

text \<open>
  C5, as stated, fails: offset 1 of the concatenated text \<open>a b\<close> of two text nodes is in
  range, it is the separator, and the mapper returns \<open>null\<close> there.
\<close>

theorem findNodeAtPosition_separator_counterexample:
  "(0::int) \<le> 1 \<and> (1::int) < int (length (fullNormalizedText (buildTextNodeMap twoNodeDoc))) \<and>
   findNodeAtPosition (buildTextNodeMap twoNodeDoc) 1 = None"
  by code_simp

text \<open>
  C6. The highlighter uses the result of the fuzzy search only when the exact search
  returned no range; \<open>findFuzzyTextRanges\<close> returns no match unless the normalized target
  has at least 10 characters and at least 3 words; and when it runs, its result is made of
  the windows of \<open>min (2 * words) 20\<close> consecutive words of the concatenated text, each of
  exactly that many words.
\<close>

theorem fuzzy_fallback_gate:
  "(\<forall>ranges.
      findTextRanges (buildTextNodeMap (textNodesOf (bodyTree api d))) target = Some ranges \<longrightarrow>
      ranges \<noteq> [] \<longrightarrow> locateRanges api d target = Some ranges)
   \<and> (length (normalizeText target) < 10 \<or> length (splitSpace (normalizeText target)) < 3 \<longrightarrow>
        findFuzzyTextRanges lc m target thresholdArg = [])
   \<and> (\<not> (length (normalizeText target) < 10 \<or> length (splitSpace (normalizeText target)) < 3) \<longrightarrow>
        findFuzzyTextRanges lc m target thresholdArg =
          concat (map (fuzzyAt lc m (normalizeText target)
                          (case thresholdArg of None \<Rightarrow> 8 / 10 | Some t \<Rightarrow> t)
                          (min (length (splitSpace (normalizeText target)) * 2) 20)
                          (splitSpace (fullNormalizedText m)))
                     [0..<Suc (length (splitSpace (fullNormalizedText m)))
                            - min (length (splitSpace (normalizeText target)) * 2) 20]))
   \<and> (\<forall>i < Suc (length (splitSpace (fullNormalizedText m)))
                 - min (length (splitSpace (normalizeText target)) * 2) 20.
        length (slice (splitSpace (fullNormalizedText m)) i
                  (i + min (length (splitSpace (normalizeText target)) * 2) 20))
          = min (length (splitSpace (normalizeText target)) * 2) 20)"
proof -
  have 1: "locateRanges api d target = Some ranges"
    if "findTextRanges (buildTextNodeMap (textNodesOf (bodyTree api d))) target = Some ranges"
      and "ranges \<noteq> []" for ranges
    using that by (simp add: locateRanges_def Let_def)
  have 2: "findFuzzyTextRanges lc m target thresholdArg = []"
    if "length (normalizeText target) < 10 \<or> length (splitSpace (normalizeText target)) < 3"
    using that by (simp only: findFuzzyTextRanges_closed if_True)
  have 3: "findFuzzyTextRanges lc m target thresholdArg =
          concat (map (fuzzyAt lc m (normalizeText target)
                          (case thresholdArg of None \<Rightarrow> 8 / 10 | Some t \<Rightarrow> t)
                          (min (length (splitSpace (normalizeText target)) * 2) 20)
                          (splitSpace (fullNormalizedText m)))
                     [0..<Suc (length (splitSpace (fullNormalizedText m)))
                            - min (length (splitSpace (normalizeText target)) * 2) 20])"
    if "\<not> (length (normalizeText target) < 10 \<or> length (splitSpace (normalizeText target)) < 3)"
    using that by (simp only: findFuzzyTextRanges_closed if_False)
  from 1 2 3 window_length show ?thesis by blast
qed

theorem fuzzy_fallback_gate_witness:
  "\<not> (length (normalizeText (js ''a b c d e f g'')) < 10
       \<or> length (splitSpace (normalizeText (js ''a b c d e f g''))) < 3) \<and>
   min (length (splitSpace (normalizeText (js ''a b c d e f g''))) * 2) 20 = 14 \<and>
   findFuzzyTextRanges asciiLowerCase (buildTextNodeMap fuzzyDoc) (js ''a b c d e f g'') (Some (7 / 10)) =
     concat (map (fuzzyAt asciiLowerCase (buildTextNodeMap fuzzyDoc) (normalizeText (js ''a b c d e f g''))
                    (case Some (7 / 10) of None \<Rightarrow> 8 / 10 | Some t \<Rightarrow> t)
                    (min (length (splitSpace (normalizeText (js ''a b c d e f g''))) * 2) 20)
                    (splitSpace (fullNormalizedText (buildTextNodeMap fuzzyDoc))))
               [0..<Suc (length (splitSpace (fullNormalizedText (buildTextNodeMap fuzzyDoc))))
                      - min (length (splitSpace (normalizeText (js ''a b c d e f g''))) * 2) 20])"
proof -
  have a: "\<not> (length (normalizeText (js ''a b c d e f g'')) < 10
       \<or> length (splitSpace (normalizeText (js ''a b c d e f g''))) < 3)" by code_simp
  have b: "min (length (splitSpace (normalizeText (js ''a b c d e f g''))) * 2) 20 = 14" by code_simp
  from fuzzy_fallback_gate[of stubBrowser 0 "js ''a b c d e f g''" asciiLowerCase
         "buildTextNodeMap fuzzyDoc" "Some (7 / 10)"] a b
  show ?thesis by blast
qed

text \<open>
  C7, as amended. The threshold parameter of \<open>findFuzzyTextRanges\<close> defaults to 0.8, and
  the highlighter always passes 0.7. A range is in the result exactly when it is the range
  made for some window whose word-set similarity to the target is at least the threshold
  in force; at the threshold 0.7 a window of similarity 0.70 passes the comparison and a
  window of similarity 0.69 adds nothing.
\<close>

theorem fuzzy_threshold:
  "findFuzzyTextRanges lc m target None = findFuzzyTextRanges lc m target (Some (8 / 10))
   \<and> (findTextRanges (buildTextNodeMap (textNodesOf (bodyTree api d))) target = Some [] \<longrightarrow>
        locateRanges api d target =
          Some (findFuzzyTextRanges (toLowerCase api)
                  (buildTextNodeMap (textNodesOf (bodyTree api d))) target (Some (7 / 10))))
   \<and> (\<forall>r. r \<in> set (findFuzzyTextRanges lc m target (Some th)) \<longleftrightarrow>
          \<not> (length (normalizeText target) < 10 \<or> length (splitSpace (normalizeText target)) < 3) \<and>
          (\<exists>i < Suc (length (splitSpace (fullNormalizedText m)))
                   - min (length (splitSpace (normalizeText target)) * 2) 20.
             th \<le> calculateSimilarity lc (normalizeText target)
                     (join [SP] (slice (splitSpace (fullNormalizedText m)) i
                                   (i + min (length (splitSpace (normalizeText target)) * 2) 20))) \<and>
             createDOMRange m
               (int (length (join [SP] (slice (splitSpace (fullNormalizedText m)) 0 i))))
               (int (length (join [SP] (slice (splitSpace (fullNormalizedText m)) 0 i))
                     + length (join [SP] (slice (splitSpace (fullNormalizedText m)) i
                                   (i + min (length (splitSpace (normalizeText target)) * 2) 20)))))
               = Some r))
   \<and> (calculateSimilarity lc nt (join [SP] (slice fw i (i + w))) = 7 / 10 \<longrightarrow>
        fuzzyAt lc m nt (7 / 10) w fw i =
          (case createDOMRange m (int (length (join [SP] (slice fw 0 i))))
                  (int (length (join [SP] (slice fw 0 i)) + length (join [SP] (slice fw i (i + w))))) of
             Some r \<Rightarrow> [r] | None \<Rightarrow> []))
   \<and> (calculateSimilarity lc nt (join [SP] (slice fw i (i + w))) = 69 / 100 \<longrightarrow>
        fuzzyAt lc m nt (7 / 10) w fw i = [])"
proof -
  have 1: "findFuzzyTextRanges lc m target None = findFuzzyTextRanges lc m target (Some (8 / 10))"
    by (simp add: findFuzzyTextRanges_def)
  have 2: "locateRanges api d target =
          Some (findFuzzyTextRanges (toLowerCase api)
                  (buildTextNodeMap (textNodesOf (bodyTree api d))) target (Some (7 / 10)))"
    if "findTextRanges (buildTextNodeMap (textNodesOf (bodyTree api d))) target = Some []"
    using that by (simp add: locateRanges_def Let_def)
  have 3: "r \<in> set (findFuzzyTextRanges lc m target (Some th)) \<longleftrightarrow>
          \<not> (length (normalizeText target) < 10 \<or> length (splitSpace (normalizeText target)) < 3) \<and>
          (\<exists>i < Suc (length (splitSpace (fullNormalizedText m)))
                   - min (length (splitSpace (normalizeText target)) * 2) 20.
             th \<le> calculateSimilarity lc (normalizeText target)
                     (join [SP] (slice (splitSpace (fullNormalizedText m)) i
                                   (i + min (length (splitSpace (normalizeText target)) * 2) 20))) \<and>
             createDOMRange m
               (int (length (join [SP] (slice (splitSpace (fullNormalizedText m)) 0 i))))
               (int (length (join [SP] (slice (splitSpace (fullNormalizedText m)) 0 i))
                     + length (join [SP] (slice (splitSpace (fullNormalizedText m)) i
                                   (i + min (length (splitSpace (normalizeText target)) * 2) 20)))))
               = Some r)" for r
    by (auto simp: findFuzzyTextRanges_closed fuzzyAt_mem)
  have 4: "fuzzyAt lc m nt (7 / 10) w fw i =
          (case createDOMRange m (int (length (join [SP] (slice fw 0 i))))
                  (int (length (join [SP] (slice fw 0 i)) + length (join [SP] (slice fw i (i + w))))) of
             Some r \<Rightarrow> [r] | None \<Rightarrow> [])"
    if "calculateSimilarity lc nt (join [SP] (slice fw i (i + w))) = 7 / 10"
    using that by (simp add: fuzzyAt_def)
  have 5: "fuzzyAt lc m nt (7 / 10) w fw i = []"
    if "calculateSimilarity lc nt (join [SP] (slice fw i (i + w))) = 69 / 100"
    using that by (simp add: fuzzyAt_def)
  from 1 2 3 4 5 show ?thesis by blast
qed

theorem fuzzy_threshold_witness:
  "findTextRanges (buildTextNodeMap (textNodesOf (bodyTree stubBrowser 0))) (js ''a b c d e f g'') = Some [] \<and>
   locateRanges stubBrowser 0 (js ''a b c d e f g'') =
     Some (findFuzzyTextRanges (toLowerCase stubBrowser)
             (buildTextNodeMap (textNodesOf (bodyTree stubBrowser 0))) (js ''a b c d e f g'') (Some (7 / 10)))"
proof -
  have a: "findTextRanges (buildTextNodeMap (textNodesOf (bodyTree stubBrowser 0))) (js ''a b c d e f g'') = Some []"
    by code_simp
  from fuzzy_threshold[of asciiLowerCase "buildTextNodeMap fuzzyDoc" "js ''a b c d e f g''" stubBrowser 0] a
  show ?thesis by blast
qed

text \<open>
  C7, as stated, fails: called without a threshold, the matcher rejects the window of
  similarity exactly 0.70 that it accepts when 0.7 is passed.
\<close>

theorem fuzzy_default_threshold_counterexample:
  "calculateSimilarity asciiLowerCase (normalizeText (js ''a b c d e f g''))
      (join [SP] (slice (splitSpace (fullNormalizedText (buildTextNodeMap fuzzyDoc))) 0 14)) = 7 / 10 \<and>
   findFuzzyTextRanges asciiLowerCase (buildTextNodeMap fuzzyDoc) (js ''a b c d e f g'') None = [] \<and>
   findFuzzyTextRanges asciiLowerCase (buildTextNodeMap fuzzyDoc) (js ''a b c d e f g'') (Some (7 / 10)) =
     [\<lparr>rangeObj = \<lparr>startContainer = 0, rangeStartOffset = 0, endContainer = 0, rangeEndOffset = 27\<rparr>,
       originalText = js ''a x b y c z d x e y f z g x'',
       rangeNormalizedText = js ''a x b y c z d x e y f z g x''\<rparr>]"
  by code_simp

text \<open>
  C8. The exact search of \<open>findTextRanges\<close> reports every occurrence of the normalized
  target in the concatenated normalized text, overlapping ones included: it returns one
  range per index at which the target occurs, made from that index, in increasing order of
  the indices.
\<close>

theorem exact_search_all_occurrences:
  assumes "normalizeText targetText \<noteq> []"
  shows "\<exists>ranges.
     findTextRanges (buildTextNodeMap doc) targetText = Some ranges \<and>
     length ranges
       = length (allOccurrences (fullNormalizedText (buildTextNodeMap doc)) (normalizeText targetText)) \<and>
     (\<forall>j < length ranges.
        createDOMRange (buildTextNodeMap doc)
          (int (allOccurrences (fullNormalizedText (buildTextNodeMap doc)) (normalizeText targetText) ! j))
          (int (allOccurrences (fullNormalizedText (buildTextNodeMap doc)) (normalizeText targetText) ! j)
             + int (length (normalizeText targetText)))
        = Some (ranges ! j)) \<and>
     set (allOccurrences (fullNormalizedText (buildTextNodeMap doc)) (normalizeText targetText))
       = {k. occursAt (fullNormalizedText (buildTextNodeMap doc)) (normalizeText targetText) k} \<and>
     sorted_wrt (<)
       (allOccurrences (fullNormalizedText (buildTextNodeMap doc)) (normalizeText targetText))"
proof -
  let ?m = "buildTextNodeMap doc"
  let ?t = "normalizeText targetText"
  let ?occ = "allOccurrences (fullNormalizedText ?m) ?t"
  have "\<forall>k \<in> set ?occ. \<exists>r. createDOMRange ?m (int k) (int k + int (length ?t)) = Some r"
  proof
    fix k assume "k \<in> set ?occ"
    then have "occursAt (fullNormalizedText ?m) ?t k"
      by (simp add: allOccurrences_def occurrencesFrom_def)
    from createDOMRange_occurrence[OF normalForm_normalizeText assms this]
    show "\<exists>r. createDOMRange ?m (int k) (int k + int (length ?t)) = Some r" .
  qed
  from rangesAt_all_Some[OF this] findTextRanges_closed[OF assms, of ?m]
    allOccurrences_spec[OF assms, of "fullNormalizedText ?m"]
  show ?thesis by simp
qed

theorem exact_search_all_occurrences_witness:
  "normalizeText (js ''aa'') \<noteq> [] \<and>
   allOccurrences (fullNormalizedText (buildTextNodeMap repeatDoc)) (normalizeText (js ''aa'')) = [0, 1] \<and>
   (\<exists>ranges.
     findTextRanges (buildTextNodeMap repeatDoc) (js ''aa'') = Some ranges \<and>
     length ranges
       = length (allOccurrences (fullNormalizedText (buildTextNodeMap repeatDoc)) (normalizeText (js ''aa''))))"
proof -
  have a: "normalizeText (js ''aa'') \<noteq> []" by code_simp
  have b: "allOccurrences (fullNormalizedText (buildTextNodeMap repeatDoc)) (normalizeText (js ''aa'')) = [0, 1]"
    by code_simp
  from exact_search_all_occurrences[OF a, of repeatDoc] a b show ?thesis by blast
qed

text \<open>
  C9. After the index is built, the segments appear in document order with strictly
  increasing offsets; the offset range of each segment is as long as its normalized text,
  which is \<open>normalizeText\<close> of the node's raw text; consecutive segments are one position
  apart, and that position holds the separating space; and the concatenated normalized text
  restricted to a segment's offset range is the segment's normalized text.
\<close>

theorem index_invariant:
  "(\<forall>i < length (textPositionMap (buildTextNodeMap doc)).
      node (textPositionMap (buildTextNodeMap doc) ! i) < length doc \<and>
      normalizedText (textPositionMap (buildTextNodeMap doc) ! i)
        = normalizeText (textContent (doc ! node (textPositionMap (buildTextNodeMap doc) ! i))) \<and>
      startOffset (textPositionMap (buildTextNodeMap doc) ! i)
        < endOffset (textPositionMap (buildTextNodeMap doc) ! i) \<and>
      endOffset (textPositionMap (buildTextNodeMap doc) ! i)
        - startOffset (textPositionMap (buildTextNodeMap doc) ! i)
        = length (normalizedText (textPositionMap (buildTextNodeMap doc) ! i)) \<and>
      slice (fullNormalizedText (buildTextNodeMap doc))
            (startOffset (textPositionMap (buildTextNodeMap doc) ! i))
            (endOffset (textPositionMap (buildTextNodeMap doc) ! i))
        = normalizedText (textPositionMap (buildTextNodeMap doc) ! i))
   \<and> (\<forall>i. Suc i < length (textPositionMap (buildTextNodeMap doc)) \<longrightarrow>
      node (textPositionMap (buildTextNodeMap doc) ! i)
        < node (textPositionMap (buildTextNodeMap doc) ! Suc i) \<and>
      startOffset (textPositionMap (buildTextNodeMap doc) ! i)
        < startOffset (textPositionMap (buildTextNodeMap doc) ! Suc i) \<and>
      startOffset (textPositionMap (buildTextNodeMap doc) ! Suc i)
        = endOffset (textPositionMap (buildTextNodeMap doc) ! i) + 1 \<and>
      fullNormalizedText (buildTextNodeMap doc)
        ! endOffset (textPositionMap (buildTextNodeMap doc) ! i) = SP)"
proof -
  let ?pm = "textPositionMap (buildTextNodeMap doc)"
  let ?full = "fullNormalizedText (buildTextNodeMap doc)"
  have c: "contiguousFrom 0 ?pm" by (rule positionMap_contiguous)
  have full: "?full = join [SP] (map normalizedText ?pm)" by (simp add: buildTextNodeMap_simps)
  have A: "node (?pm ! i) < length doc \<and>
      normalizedText (?pm ! i) = normalizeText (textContent (doc ! node (?pm ! i))) \<and>
      startOffset (?pm ! i) < endOffset (?pm ! i) \<and>
      endOffset (?pm ! i) - startOffset (?pm ! i) = length (normalizedText (?pm ! i)) \<and>
      slice ?full (startOffset (?pm ! i)) (endOffset (?pm ! i)) = normalizedText (?pm ! i)"
    if i: "i < length ?pm" for i
  proof -
    from i have m: "?pm ! i \<in> set ?pm" by simp
    from contiguous_bounds[OF c m]
    have b: "startOffset (?pm ! i) < endOffset (?pm ! i)"
      "endOffset (?pm ! i) - startOffset (?pm ! i) = length (normalizedText (?pm ! i))"
      by linarith+
    from contiguous_slice[OF c m] full
    have s: "slice ?full (startOffset (?pm ! i)) (endOffset (?pm ! i)) = normalizedText (?pm ! i)"
      by simp
    from b s positionMap_entry[OF m] show ?thesis by blast
  qed
  have B: "node (?pm ! i) < node (?pm ! Suc i) \<and>
      startOffset (?pm ! i) < startOffset (?pm ! Suc i) \<and>
      startOffset (?pm ! Suc i) = endOffset (?pm ! i) + 1 \<and>
      ?full ! endOffset (?pm ! i) = SP"
    if i: "Suc i < length ?pm" for i
  proof -
    from i have m: "?pm ! i \<in> set ?pm" by simp
    have "sorted_wrt (<) (map node ?pm)"
      by (simp only: buildTextNodeMap_simps map_node_sorted)
    then have "map node ?pm ! i < map node ?pm ! Suc i"
      using i sorted_wrt_nth_less[of "(<)" "map node ?pm" i "Suc i"] by simp
    then have n: "node (?pm ! i) < node (?pm ! Suc i)" using i by simp
    from contiguous_Suc[OF c i] full
    have s: "startOffset (?pm ! Suc i) = endOffset (?pm ! i) + 1"
      "?full ! endOffset (?pm ! i) = SP" by simp_all
    from contiguous_bounds[OF c m] s(1)
    have "startOffset (?pm ! i) < startOffset (?pm ! Suc i)" by linarith
    with n s show ?thesis by blast
  qed
  from A B show ?thesis by blast
qed

theorem index_invariant_witness:
  "Suc 0 < length (textPositionMap (buildTextNodeMap exampleDoc)) \<and>
   startOffset (textPositionMap (buildTextNodeMap exampleDoc) ! Suc 0)
     = endOffset (textPositionMap (buildTextNodeMap exampleDoc) ! 0) + 1 \<and>
   slice (fullNormalizedText (buildTextNodeMap exampleDoc))
         (startOffset (textPositionMap (buildTextNodeMap exampleDoc) ! 0))
         (endOffset (textPositionMap (buildTextNodeMap exampleDoc) ! 0))
     = normalizedText (textPositionMap (buildTextNodeMap exampleDoc) ! 0)"
proof -
  have len: "Suc 0 < length (textPositionMap (buildTextNodeMap exampleDoc))"
    by code_simp
  then have len0: "0 < length (textPositionMap (buildTextNodeMap exampleDoc))" by linarith
  from index_invariant[of exampleDoc] len len0 show ?thesis by blast
qed

text \<open>
  C10. A target whose normalization is empty, which is exactly the empty string or a string
  of white space only, makes \<open>findTextRanges\<close> return the empty list.
\<close>

theorem empty_target:
  "(normalizeText targetText = [] \<longleftrightarrow> (\<forall>c \<in> set targetText. isWhiteSpace c)) \<and>
   (normalizeText targetText = [] \<longrightarrow> findTextRanges m targetText = Some [])"
  by (simp add: normalizeText_empty_iff findTextRanges_def)

theorem empty_target_witness:
  "normalizeText (js ''  '') = [] \<and> findTextRanges (buildTextNodeMap exampleDoc) (js ''  '') = Some []"
proof -
  have "normalizeText (js ''  '') = []" by code_simp
  with empty_target[of "js ''  ''" "buildTextNodeMap exampleDoc"] show ?thesis by blast
qed

end
